theory Spec2Isabelle
  imports Main
begin

section \<open>Strings, character classes and numbers\<close>

text \<open>
  A Python \<open>str\<close> is a sequence of Unicode code points; a code point is a natural number
  and a string a list of them. ASCII literals are written through \<open>ascii\<close>; the Korean
  literals of the program are written as their code points.
\<close>

type_synonym ustr = "nat list"

definition ascii :: "string \<Rightarrow> ustr" where
  "ascii s = map of_char s"

text \<open>
  The regular-expression escape \<open>\d\<close>, applied to a \<open>str\<close>, matches every character
  of the Unicode category Nd, and \<open>int()\<close> reads each of them as its decimal value. The
  category is made of runs of ten consecutive code points, the digits 0 to 9 in order;
  \<open>nd_zeros\<close> lists the zero of each run (Unicode 14.0, the table of CPython 3.11).
\<close>

definition nd_zeros :: "nat list" where
  "nd_zeros = [48, 1632, 1776, 1984, 2406, 2534, 2662, 2790, 2918, 3046, 3174, 3302, 3430,
     3558, 3664, 3792, 3872, 4160, 4240, 6112, 6160, 6470, 6608, 6784, 6800, 6992, 7088,
     7232, 7248, 42528, 43216, 43264, 43472, 43504, 43600, 44016, 65296, 66720, 68912,
     69734, 69872, 69942, 70096, 70384, 70736, 70864, 71248, 71360, 71472, 71904, 72016,
     72784, 73040, 73120, 92768, 92864, 93008, 120782, 120792, 120802, 120812, 120822,
     123200, 123632, 125264, 130032]"

definition is_digit :: "nat \<Rightarrow> bool" where
  "is_digit c = list_ex (\<lambda>z. z \<le> c \<and> c < z + 10) nd_zeros"

definition digit_val :: "nat \<Rightarrow> nat" where
  "digit_val c = (case filter (\<lambda>z. z \<le> c \<and> c < z + 10) nd_zeros of
                    z # _ \<Rightarrow> c - z | [] \<Rightarrow> 0)"

text \<open>\<open>\s\<close> and \<open>str.strip\<close>: the characters for which \<open>str.isspace\<close> holds.\<close>

definition is_space :: "nat \<Rightarrow> bool" where
  "is_space c = ((9 \<le> c \<and> c \<le> 13) \<or> (28 \<le> c \<and> c \<le> 32) \<or> c = 133 \<or> c = 160
                 \<or> c = 5760 \<or> (8192 \<le> c \<and> c \<le> 8202) \<or> c = 8232 \<or> c = 8233
                 \<or> c = 8239 \<or> c = 8287 \<or> c = 12288)"

definition py_strip :: "ustr \<Rightarrow> ustr" where
  "py_strip s = rev (dropWhile is_space (rev (dropWhile is_space s)))"

text \<open>\<open>k in s\<close> on strings: \<open>k\<close> occurs in \<open>s\<close> as a contiguous piece.\<close>

fun starts_with :: "ustr \<Rightarrow> ustr \<Rightarrow> bool" where
  "starts_with [] s = True"
| "starts_with (k # ks) [] = False"
| "starts_with (k # ks) (c # cs) = (k = c \<and> starts_with ks cs)"

fun str_in :: "ustr \<Rightarrow> ustr \<Rightarrow> bool" where
  "str_in k [] = (k = [])"
| "str_in k (c # cs) = (starts_with k (c # cs) \<or> str_in k cs)"

text \<open>\<open>s.split("\n")\<close>: always at least one piece.\<close>

fun split_lines :: "ustr \<Rightarrow> ustr list" where
  "split_lines [] = [[]]"
| "split_lines (c # cs) =
     (if c = 10 then [] # split_lines cs
      else (case split_lines cs of l # ls \<Rightarrow> (c # l) # ls | [] \<Rightarrow> [[c]]))"

text \<open>
  \<open>int(s)\<close> on a string of decimal digits. The program passes it nothing else (a group
  of \<open>\d\<close>s, or a string from which every other character was removed), so the signs,
  underscores and surrounding blanks that \<open>int\<close> also accepts are left out: anything but
  a non-empty digit string is the \<open>ValueError\<close>, here \<open>None\<close>. The interpreter also
  refuses a string of more than 640 digits when it has more digits than the limit \<open>lim\<close>
  of \<open>sys.set_int_max_str_digits\<close> (4300 by default from Python 3.11 on; \<open>None\<close> where
  there is no limit).
\<close>

definition digits_value :: "ustr \<Rightarrow> nat" where
  "digits_value s = foldl (\<lambda>a c. 10 * a + digit_val c) 0 s"

definition over_limit :: "nat option \<Rightarrow> ustr \<Rightarrow> bool" where
  "over_limit lim s = (case lim of None \<Rightarrow> False | Some l \<Rightarrow> 640 < length s \<and> l < length s)"

definition py_int :: "nat option \<Rightarrow> ustr \<Rightarrow> nat option" where
  "py_int lim s =
     (if s = [] \<or> \<not> list_all is_digit s \<or> over_limit lim s then None
      else Some (digits_value s))"

text \<open>Formatting a non-negative integer: \<open>{n:d}\<close>, \<open>{n:04d}\<close>, \<open>{n:02d}\<close>, \<open>{n:,}\<close>.\<close>

fun digits10 :: "nat \<Rightarrow> ustr" where
  "digits10 n = (if n < 10 then [48 + n] else digits10 (n div 10) @ [48 + n mod 10])"

declare digits10.simps [simp del]

definition zero_pad :: "nat \<Rightarrow> ustr \<Rightarrow> ustr" where
  "zero_pad w s = replicate (w - length s) 48 @ s"

definition fmt04 :: "nat \<Rightarrow> ustr" where
  "fmt04 n = zero_pad 4 (digits10 n)"

definition fmt02 :: "nat \<Rightarrow> ustr" where
  "fmt02 n = zero_pad 2 (digits10 n)"

fun fmt_commas :: "nat \<Rightarrow> ustr" where
  "fmt_commas n =
     (if n < 1000 then digits10 n
      else fmt_commas (n div 1000) @ [44] @ zero_pad 3 (digits10 (n mod 1000)))"

declare fmt_commas.simps [simp del]

section \<open>Regular expressions as the \<open>re\<close> module matches them\<close>

text \<open>
  The patterns of the program are written as terms of \<open>rx\<close> and run by a backtracking
  matcher that returns every way to match at a position, in the order in which \<open>re\<close>
  tries them: the first alternative before the second, one more repetition before
  stopping (all quantifiers of the program are greedy). The head of the list is the match
  that \<open>re\<close> reports. A state holds the text before the position (reversed), the text from
  the position on, and the groups captured so far, the latest first.
\<close>

datatype citem = CDigit | CSpace | CChar nat | CRange nat nat

fun citem_has :: "citem \<Rightarrow> nat \<Rightarrow> bool" where
  "citem_has CDigit c = is_digit c"
| "citem_has CSpace c = is_space c"
| "citem_has (CChar d) c = (c = d)"
| "citem_has (CRange lo hi) c = (lo \<le> c \<and> c \<le> hi)"

definition in_class :: "citem list \<Rightarrow> nat \<Rightarrow> bool" where
  "in_class cs c = list_ex (\<lambda>i. citem_has i c) cs"

datatype rx =
    Cls "citem list"
  | NCls "citem list"
  | Eps
  | Seq rx rx
  | Alt rx rx
  | Rep rx nat "nat option"
  | Grp nat rx
  | NotBehind "citem list"
  | NotAhead "citem list"

record mstate =
  pre :: ustr
  post :: ustr
  grps :: "(nat \<times> ustr) list"

definition step_char :: "mstate \<Rightarrow> mstate list" where
  "step_char st = (case post st of [] \<Rightarrow> []
                   | c # r \<Rightarrow> [st\<lparr>pre := c # pre st, post := r\<rparr>])"

definition consumed :: "mstate \<Rightarrow> mstate \<Rightarrow> ustr" where
  "consumed st st' = take (length (post st) - length (post st')) (post st)"

text \<open>
  \<open>reps f h lo\<close>: at most \<open>h\<close> and at least \<open>lo\<close> repetitions of \<open>f\<close>, the longer
  attempts first.
\<close>

primrec reps :: "(mstate \<Rightarrow> mstate list) \<Rightarrow> nat \<Rightarrow> nat \<Rightarrow> mstate \<Rightarrow> mstate list" where
  "reps f 0 lo st = (if lo = 0 then [st] else [])"
| "reps f (Suc h) lo st =
     concat (map (reps f h (lo - 1)) (f st)) @ (if lo = 0 then [st] else [])"

text \<open>
  An unbounded quantifier is bounded by the length of the remaining text: every repeated
  sub-pattern of the program consumes at least one character.
\<close>

fun rx_match :: "rx \<Rightarrow> mstate \<Rightarrow> mstate list" where
  "rx_match (Cls cs) st =
     (case post st of [] \<Rightarrow> []
      | c # r \<Rightarrow> if in_class cs c then step_char st else [])"
| "rx_match (NCls cs) st =
     (case post st of [] \<Rightarrow> []
      | c # r \<Rightarrow> if in_class cs c then [] else step_char st)"
| "rx_match Eps st = [st]"
| "rx_match (Seq a b) st = concat (map (rx_match b) (rx_match a st))"
| "rx_match (Alt a b) st = rx_match a st @ rx_match b st"
| "rx_match (Rep r lo hi) st =
     reps (rx_match r) (case hi of Some h \<Rightarrow> h | None \<Rightarrow> length (post st)) lo st"
| "rx_match (Grp k r) st =
     map (\<lambda>st'. st'\<lparr>grps := (k, consumed st st') # grps st'\<rparr>) (rx_match r st)"
| "rx_match (NotBehind cs) st =
     (case pre st of [] \<Rightarrow> [st] | c # r \<Rightarrow> if in_class cs c then [] else [st])"
| "rx_match (NotAhead cs) st =
     (case post st of [] \<Rightarrow> [st] | c # r \<Rightarrow> if in_class cs c then [] else [st])"

definition seqs :: "rx list \<Rightarrow> rx" where
  "seqs rs = foldr Seq rs Eps"

text \<open>\<open>re.search\<close>: the first match at the leftmost position that has one. Group 0 is
  the whole match.\<close>

definition match_at :: "rx \<Rightarrow> ustr \<Rightarrow> ustr \<Rightarrow> mstate option" where
  "match_at r p s =
     (case rx_match (Grp 0 r) \<lparr>pre = p, post = s, grps = []\<rparr> of
        m # _ \<Rightarrow> Some m | [] \<Rightarrow> None)"

fun search_from :: "rx \<Rightarrow> ustr \<Rightarrow> ustr \<Rightarrow> mstate option" where
  "search_from r p [] = match_at r p []"
| "search_from r p (c # cs) =
     (case match_at r p (c # cs) of Some m \<Rightarrow> Some m | None \<Rightarrow> search_from r (c # p) cs)"

definition re_search :: "rx \<Rightarrow> ustr \<Rightarrow> mstate option" where
  "re_search r s = search_from r [] s"

definition group :: "mstate \<Rightarrow> nat \<Rightarrow> ustr option" where
  "group m k = map_of (grps m) k"

definition group_text :: "mstate \<Rightarrow> nat \<Rightarrow> ustr" where
  "group_text m k = (case group m k of Some t \<Rightarrow> t | None \<Rightarrow> [])"

text \<open>
  \<open>re.findall\<close> (the texts of group \<open>k\<close> of the successive matches) and \<open>re.sub\<close>
  with a constant replacement. No pattern of the program matches the empty string, so the
  scan goes on from the end of each match.
\<close>

function findall_from :: "nat \<Rightarrow> rx \<Rightarrow> ustr \<Rightarrow> ustr \<Rightarrow> ustr list" where
  "findall_from k r p s =
     (case search_from r p s of None \<Rightarrow> []
      | Some m \<Rightarrow> group_text m k #
          (if length (post m) < length s then findall_from k r (pre m) (post m) else []))"
  by pat_completeness auto
termination
  by (relation "measure (\<lambda>(k, r, p, s). length s)") auto

declare findall_from.simps [simp del]

definition re_findall :: "nat \<Rightarrow> rx \<Rightarrow> ustr \<Rightarrow> ustr list" where
  "re_findall k r s = findall_from k r [] s"

function sub_from :: "rx \<Rightarrow> ustr \<Rightarrow> ustr \<Rightarrow> ustr \<Rightarrow> ustr" where
  "sub_from r repl p s =
     (case search_from r p s of None \<Rightarrow> s
      | Some m \<Rightarrow>
          take (length s - length (post m) - length (group_text m 0)) s @ repl @
          (if length (post m) < length s then sub_from r repl (pre m) (post m) else post m))"
  by pat_completeness auto
termination
  by (relation "measure (\<lambda>(r, repl, p, s). length s)") auto

declare sub_from.simps [simp del]

definition re_sub :: "rx \<Rightarrow> ustr \<Rightarrow> ustr \<Rightarrow> ustr" where
  "re_sub r repl s = sub_from r repl [] s"

section \<open>The date normalizer \<open>fmt_date_uniform\<close>\<close>

definition rx_digit :: rx where
  "rx_digit = Cls [CDigit]"

definition rx_ws0 :: rx where
  "rx_ws0 = Rep (Cls [CSpace]) 0 None"

text \<open>\<open>[-./]\<close>\<close>

definition rx_sep :: rx where
  "rx_sep = Cls [CChar 45, CChar 46, CChar 47]"

text \<open>The year, month and day markers: U+B144, U+C6D4, U+C77C.\<close>

definition ch_year :: nat where "ch_year = 45380"
definition ch_month :: nat where "ch_month = 50900"
definition ch_day :: nat where "ch_day = 51068"

text \<open>\<open>[^\d./\-YMD]\<close>, with \<open>Y\<close>, \<open>M\<close>, \<open>D\<close> the three markers.\<close>

definition rx_not_date_char :: rx where
  "rx_not_date_char =
     NCls [CDigit, CChar 46, CChar 47, CChar 45, CChar ch_year, CChar ch_month, CChar ch_day]"

text \<open>\<open>\s+\<close>\<close>

definition rx_ws1 :: rx where
  "rx_ws1 = Rep (Cls [CSpace]) 1 None"

text \<open>\<open>(?<!\d)(\d{4})(\d{2})(\d{2})(?!\d)\<close>\<close>

definition rx_ymd8 :: rx where
  "rx_ymd8 = seqs [NotBehind [CDigit], Grp 1 (Rep rx_digit 4 (Some 4)),
                   Grp 2 (Rep rx_digit 2 (Some 2)), Grp 3 (Rep rx_digit 2 (Some 2)),
                   NotAhead [CDigit]]"

text \<open>\<open>(?<!\d)(\d{2})(\d{2})(\d{2})(?!\d)\<close>\<close>

definition rx_ymd6 :: rx where
  "rx_ymd6 = seqs [NotBehind [CDigit], Grp 1 (Rep rx_digit 2 (Some 2)),
                   Grp 2 (Rep rx_digit 2 (Some 2)), Grp 3 (Rep rx_digit 2 (Some 2)),
                   NotAhead [CDigit]]"

text \<open>\<open>(\d{2,4})\s*[-./]\s*(\d{1,2})\s*[-./]\s*(\d{1,2})\<close>\<close>

definition rx_sep_ymd :: rx where
  "rx_sep_ymd = seqs [Grp 1 (Rep rx_digit 2 (Some 4)), rx_ws0, rx_sep, rx_ws0,
                      Grp 2 (Rep rx_digit 1 (Some 2)), rx_ws0, rx_sep, rx_ws0,
                      Grp 3 (Rep rx_digit 1 (Some 2))]"

text \<open>\<open>(\d{2,4})\s*Y\<close>, \<open>(\d{1,2})\s*M\<close>, \<open>(\d{1,2})\s*D\<close>\<close>

definition rx_year_k :: rx where
  "rx_year_k = seqs [Grp 1 (Rep rx_digit 2 (Some 4)), rx_ws0, Cls [CChar ch_year]]"

definition rx_month_k :: rx where
  "rx_month_k = seqs [Grp 1 (Rep rx_digit 1 (Some 2)), rx_ws0, Cls [CChar ch_month]]"

definition rx_day_k :: rx where
  "rx_day_k = seqs [Grp 1 (Rep rx_digit 1 (Some 2)), rx_ws0, Cls [CChar ch_day]]"

text \<open>\<open>(?<!\d)(\d{1,2})\s*[-./]\s*(\d{1,2})(?!\d)\<close>\<close>

definition rx_md :: rx where
  "rx_md = seqs [NotBehind [CDigit], Grp 1 (Rep rx_digit 1 (Some 2)), rx_ws0, rx_sep, rx_ws0,
                 Grp 2 (Rep rx_digit 1 (Some 2)), NotAhead [CDigit]]"

text \<open>\<open>\d+\<close>\<close>

definition rx_digits :: rx where
  "rx_digits = Rep rx_digit 1 None"

type_synonym ymd = "ustr option \<times> ustr option \<times> ustr option"

text \<open>Step 4 of the source: the digit runs alone, split by their lengths.\<close>

definition md_of :: "ustr \<Rightarrow> ustr option \<times> ustr option" where
  "md_of b = (if length b = 3 then (Some (take 1 b), Some (drop 1 b))
              else (Some (take 2 b), Some (drop 2 b)))"

fun loose_split :: "ustr list \<Rightarrow> ymd" where
  "loose_split [] = (None, None, None)"
| "loose_split [n] =
     (if length n = 4 then (None, Some (take 2 n), Some (drop 2 n))
      else if length n = 3 then (None, Some (take 1 n), Some (drop 1 n))
      else (None, Some n, None))"
| "loose_split (a # b # rest) =
     (if length a = 4 \<and> (length b = 3 \<or> length b = 4) then (Some a, md_of b)
      else if length a = 4 \<and> length b \<le> 2 then (Some a, Some b, None)
      else if length a \<le> 2 \<and> (length b = 3 \<or> length b = 4) then (None, md_of b)
      else if length a \<le> 2 \<and> length b \<le> 2 then (None, Some a, Some b)
      else (None, None, None))"

definition group_of :: "mstate option \<Rightarrow> nat \<Rightarrow> ustr option" where
  "group_of mo k = (case mo of None \<Rightarrow> None | Some m \<Rightarrow> group m k)"

definition found :: "mstate option \<Rightarrow> bool" where
  "found mo = (case mo of None \<Rightarrow> False | Some m \<Rightarrow> True)"

text \<open>
  The cascade of the source, first match wins. Every group of these patterns takes part
  in every match, so \<open>"20" + m.group(1)\<close> always has a string to extend.
\<close>

definition parse_date :: "ustr \<Rightarrow> ymd" where
  "parse_date cleaned =
     (case re_search rx_ymd8 cleaned of
        Some m \<Rightarrow> (group m 1, group m 2, group m 3)
      | None \<Rightarrow>
     (case re_search rx_ymd6 cleaned of
        Some m \<Rightarrow> (map_option (\<lambda>t. ascii ''20'' @ t) (group m 1), group m 2, group m 3)
      | None \<Rightarrow>
     (case re_search rx_sep_ymd cleaned of
        Some m \<Rightarrow> (group m 1, group m 2, group m 3)
      | None \<Rightarrow>
     (let yk = re_search rx_year_k cleaned;
          mk = re_search rx_month_k cleaned;
          dk = re_search rx_day_k cleaned
      in if found yk \<or> found mk \<or> found dk
         then (group_of yk 1, group_of mk 1, group_of dk 1)
         else (case re_search rx_md cleaned of
                 Some m2 \<Rightarrow> (None, group m2 1, group m2 2)
               | None \<Rightarrow> loose_split (re_findall 0 rx_digits cleaned))))))"

definition clean_date :: "ustr \<Rightarrow> ustr" where
  "clean_date src = py_strip (re_sub rx_ws1 (ascii '' '') (re_sub rx_not_date_char (ascii '' '') src))"

definition norm_year :: "nat \<Rightarrow> nat option \<Rightarrow> ustr option \<Rightarrow> ustr option" where
  "norm_year cur_year lim v =
     (case v of None \<Rightarrow> Some (fmt04 cur_year)
      | Some t \<Rightarrow> map_option fmt04 (py_int lim (if length t = 2 then ascii ''20'' @ t else t)))"

definition norm_md :: "nat option \<Rightarrow> ustr option \<Rightarrow> ustr option" where
  "norm_md lim v = (case v of None \<Rightarrow> Some (ascii ''00'')
                    | Some t \<Rightarrow> map_option fmt02 (py_int lim t))"

definition unknown_date :: "nat \<Rightarrow> ustr" where
  "unknown_date cur_year = fmt04 cur_year @ ascii ''/00/00''"

text \<open>The \<open>try\<close> block: any \<open>int\<close> that raises leads to the \<open>except\<close> branch.\<close>

definition assemble_date :: "nat \<Rightarrow> nat option \<Rightarrow> ymd \<Rightarrow> ustr" where
  "assemble_date cur_year lim f =
     (case f of (Y, M, D) \<Rightarrow>
      (case norm_year cur_year lim Y of None \<Rightarrow> unknown_date cur_year | Some YY \<Rightarrow>
      (case norm_md lim M of None \<Rightarrow> unknown_date cur_year | Some MM \<Rightarrow>
      (case norm_md lim D of None \<Rightarrow> unknown_date cur_year | Some DD \<Rightarrow>
      (case py_int lim MM of None \<Rightarrow> unknown_date cur_year | Some mi \<Rightarrow>
      (case py_int lim DD of None \<Rightarrow> unknown_date cur_year | Some di \<Rightarrow>
         YY @ ascii ''/'' @ (if mi < 1 \<or> 12 < mi then ascii ''00'' else MM)
            @ ascii ''/'' @ (if di < 1 \<or> 31 < di then ascii ''00'' else DD)))))))"

text \<open>\<open>cur_year\<close> is \<open>datetime.now().year\<close>.\<close>

definition fmt_date_uniform :: "nat \<Rightarrow> nat option \<Rightarrow> ustr \<Rightarrow> ustr" where
  "fmt_date_uniform cur_year lim s =
     (if s = [] \<or> py_strip s = [] then unknown_date cur_year
      else assemble_date cur_year lim (parse_date (clean_date s)))"

section \<open>Classification of a page\<close>

text \<open>\<open>re.sub(r"\s+", "", s)\<close>: every run of blanks is deleted, so every blank is.\<close>

definition remove_ws :: "ustr \<Rightarrow> ustr" where
  "remove_ws s = filter (\<lambda>c. \<not> is_space c) s"

text \<open>The marker phrase with and without its blank: U+ACBD U+CC30 U+CCAD, U+ACE0 U+C9C0.\<close>

definition marker_spaced :: ustr where
  "marker_spaced = [44221, 52272, 52397, 32, 44256, 51648]"

definition marker_joined :: ustr where
  "marker_joined = [44221, 52272, 52397, 44256, 51648]"

definition classify_image_type :: "ustr \<Rightarrow> bool" where
  "classify_image_type full_text =
     (if full_text = [] then False
      else (let joined = remove_ws full_text
            in str_in marker_spaced full_text \<or> str_in marker_joined joined))"

section \<open>Fields, dictionaries and errors\<close>

text \<open>
  The six field names of \<open>FIELDS\<close>, in the order of the source: vehicle number, date,
  place, fine, due date, content.
\<close>

datatype field = PlateNumber | ViolationDate | Location | Fine | DueDate | Description

definition FIELDS :: "field list" where
  "FIELDS = [PlateNumber, ViolationDate, Location, Fine, DueDate, Description]"

text \<open>A \<open>dict\<close>: keys in insertion order, each once.\<close>

fun dict_set :: "'k \<Rightarrow> 'v \<Rightarrow> ('k \<times> 'v) list \<Rightarrow> ('k \<times> 'v) list" where
  "dict_set k v [] = [(k, v)]"
| "dict_set k v (e # d) = (if fst e = k then (k, v) # d else e # dict_set k v d)"

definition dict_get :: "('k \<times> 'v) list \<Rightarrow> 'k \<Rightarrow> 'v \<Rightarrow> 'v" where
  "dict_get d k dflt = (case map_of d k of Some v \<Rightarrow> v | None \<Rightarrow> dflt)"

datatype error = ProviderError | ValueError | IndexError

section \<open>Amounts\<close>

text \<open>The currency unit, U+C6D0.\<close>

definition ch_won :: nat where "ch_won = 50896"

definition in_fine_range :: "nat \<Rightarrow> bool" where
  "in_fine_range v = (10000 \<le> v \<and> v \<le> 500000)"

text \<open>\<open>f"{v:,}W"\<close> with \<open>W\<close> the currency unit.\<close>

definition fmt_won :: "nat \<Rightarrow> ustr" where
  "fmt_won v = fmt_commas v @ [ch_won]"

text \<open>\<open>n.replace(",", "")\<close>\<close>

definition remove_commas :: "ustr \<Rightarrow> ustr" where
  "remove_commas t = filter (\<lambda>c. c \<noteq> 44) t"

section \<open>Region-based extraction\<close>

text \<open>\<open>(\d{2,3}[LO-HI]\d{4})\<close> and \<open>(\d{2,3}\s*[LO-HI]\s*\d{4})\<close>, the class being the
  Hangul syllables U+AC00 to U+D7A3.\<close>

definition rx_hangul :: rx where
  "rx_hangul = Cls [CRange 44032 55203]"

definition rx_plate_tight :: rx where
  "rx_plate_tight = Grp 1 (seqs [Rep rx_digit 2 (Some 3), rx_hangul, Rep rx_digit 4 (Some 4)])"

definition rx_plate_loose :: rx where
  "rx_plate_loose =
     Grp 1 (seqs [Rep rx_digit 2 (Some 3), rx_ws0, rx_hangul, rx_ws0, Rep rx_digit 4 (Some 4)])"

text \<open>\<open>[\d,]+\<close>\<close>

definition rx_num_commas :: rx where
  "rx_num_commas = Rep (Cls [CDigit, CChar 44]) 1 None"

text \<open>The loop over \<open>nums\<close> of \<open>post_process_text\<close>: an \<open>int\<close> that raises is passed over.\<close>

fun first_fine :: "nat option \<Rightarrow> ustr list \<Rightarrow> ustr option" where
  "first_fine lim [] = None"
| "first_fine lim (n # ns) =
     (case py_int lim (remove_commas n) of
        Some val \<Rightarrow> if in_fine_range val then Some (fmt_won val) else first_fine lim ns
      | None \<Rightarrow> first_fine lim ns)"

definition post_process_text :: "nat \<Rightarrow> nat option \<Rightarrow> field \<Rightarrow> ustr \<Rightarrow> ustr" where
  "post_process_text cur_year lim fld raw_text =
     (if raw_text = [] then []
      else (let text = py_strip (re_sub rx_ws1 (ascii '' '') raw_text) in
        if fld = PlateNumber then
          (case re_search rx_plate_tight text of
             Some m \<Rightarrow> remove_ws (group_text m 1)
           | None \<Rightarrow>
          (case re_search rx_plate_loose text of
             Some m \<Rightarrow> remove_ws (group_text m 1)
           | None \<Rightarrow> text))
        else if fld = ViolationDate \<or> fld = DueDate then fmt_date_uniform cur_year lim text
        else if fld = Fine then
          (case first_fine lim (re_findall 0 rx_num_commas text) of
             Some r \<Rightarrow> r | None \<Rightarrow> text)
        else text))"

text \<open>
  The OCR provider together with the crop of the current image: for a rectangle, either
  a failure (any exception of the crop or of the call, or a response that carries an
  error message) or the descriptions of the text annotations of the response.
\<close>

type_synonym provider = "int \<times> int \<times> int \<times> int \<Rightarrow> error + ustr list"

text \<open>Everything of \<open>extract_text_from_region\<close> is inside its \<open>try\<close>: any failure,
  also of unpacking \<open>coords\<close>, gives the empty string.\<close>

definition extract_text_from_region ::
    "nat \<Rightarrow> nat option \<Rightarrow> provider \<Rightarrow> field \<Rightarrow> int list \<Rightarrow> ustr" where
  "extract_text_from_region cur_year lim ocr fld coords =
     (case coords of
        [x1, y1, x2, y2] \<Rightarrow>
          (case ocr (x1, y1, x2, y2) of
             Inl e \<Rightarrow> []
           | Inr texts \<Rightarrow>
               post_process_text cur_year lim fld
                 (case texts of [] \<Rightarrow> [] | t # ts \<Rightarrow> py_strip t))
      | _ \<Rightarrow> [])"

text \<open>\<open>extract_text_from_region\<close> raises nothing, so the handler around its call in
  \<open>process_template_based_ocr\<close> has nothing to catch.\<close>

definition process_template_based_ocr ::
    "nat \<Rightarrow> nat option \<Rightarrow> provider \<Rightarrow> (field \<times> int list) list \<Rightarrow> (field \<times> ustr) list" where
  "process_template_based_ocr cur_year lim ocr coordinates =
     foldl (\<lambda>ocr_results (fld, coords).
              dict_set fld (extract_text_from_region cur_year lim ocr fld coords) ocr_results)
           [] coordinates"

section \<open>Keyword-based extraction of the vehicle number\<close>

text \<open>\<open>(\d{4})(?!\d)\<close>, searched in the text without its blanks.\<close>

definition rx_last4 :: rx where
  "rx_last4 = seqs [Grp 1 (Rep rx_digit 4 (Some 4)), NotAhead [CDigit]]"

definition find4 :: "ustr \<Rightarrow> ustr option" where
  "find4 s = (case re_search rx_last4 (remove_ws s) of
                None \<Rightarrow> None | Some m \<Rightarrow> Some (group_text m 1))"

definition vehicle_keywords :: "ustr list" where
  "vehicle_keywords = [[52264, 47049, 48264, 54840], [52264, 47049], [45824, 49345]]"

definition penalty_words :: "ustr list" where
  "penalty_words = [[50896], [44552, 50529], [44284, 53468, 47308], [48276, 52825, 44552]]"

definition any_in :: "ustr list \<Rightarrow> ustr \<Rightarrow> bool" where
  "any_in ks line = list_ex (\<lambda>k. str_in k line) ks"

text \<open>\<open>line + (" " + lines[i + 1] if i + 1 < len(lines) else "")\<close>, \<open>rest\<close> being the
  lines after \<open>line\<close>.\<close>

definition with_next :: "ustr \<Rightarrow> ustr list \<Rightarrow> ustr" where
  "with_next line rest = line @ (case rest of [] \<Rightarrow> [] | nxt # _ \<Rightarrow> 32 # nxt)"

fun plate_by_keyword :: "ustr list \<Rightarrow> ustr option" where
  "plate_by_keyword [] = None"
| "plate_by_keyword (line # rest) =
     (if any_in vehicle_keywords line
      then (case find4 (with_next line rest) of
              Some r \<Rightarrow> Some r | None \<Rightarrow> plate_by_keyword rest)
      else plate_by_keyword rest)"

fun plate_by_line :: "ustr list \<Rightarrow> ustr option" where
  "plate_by_line [] = None"
| "plate_by_line (line # rest) =
     (if any_in penalty_words line then plate_by_line rest
      else (case find4 line of Some r \<Rightarrow> Some r | None \<Rightarrow> plate_by_line rest))"

text \<open>
  The first block of the source: when the template has a rectangle for the vehicle number
  and an image is loaded, the number is first looked for in that rectangle. The function is
  reached from the batch only, which has the OCR client already.
\<close>

definition plate_by_roi ::
    "nat \<Rightarrow> nat option \<Rightarrow> provider \<Rightarrow> (field \<times> int list) list \<Rightarrow> bool \<Rightarrow> ustr option" where
  "plate_by_roi cur_year lim ocr coordinates has_image =
     (case map_of coordinates PlateNumber of
        None \<Rightarrow> None
      | Some roi_coords \<Rightarrow>
          if has_image
          then find4 (extract_text_from_region cur_year lim ocr PlateNumber roi_coords)
          else None)"

definition extract_vehicle_number_from_text ::
    "nat \<Rightarrow> nat option \<Rightarrow> provider \<Rightarrow> (field \<times> int list) list \<Rightarrow> bool \<Rightarrow> ustr \<Rightarrow> ustr" where
  "extract_vehicle_number_from_text cur_year lim ocr coordinates has_image text =
     (case plate_by_roi cur_year lim ocr coordinates has_image of
        Some r \<Rightarrow> r
      | None \<Rightarrow>
     (let lines = (if text = [] then [] else split_lines text) in
      case plate_by_keyword lines of
        Some r \<Rightarrow> r
      | None \<Rightarrow>
     (case plate_by_line lines of
        Some r \<Rightarrow> r
      | None \<Rightarrow>
     (case find4 text of Some r \<Rightarrow> r | None \<Rightarrow> []))))"

section \<open>Keyword-based extraction of the fine\<close>

text \<open>\<open>\d{2,4}\s*-\s*\d{3,6}\s*-\s*\d{1,4}\<close>\<close>

definition rx_hyphen_code :: rx where
  "rx_hyphen_code = seqs [Rep rx_digit 2 (Some 4), rx_ws0, Cls [CChar 45], rx_ws0,
                          Rep rx_digit 3 (Some 6), rx_ws0, Cls [CChar 45], rx_ws0,
                          Rep rx_digit 1 (Some 4)]"

definition strip_hyphen_codes :: "ustr \<Rightarrow> ustr" where
  "strip_hyphen_codes s = re_sub rx_hyphen_code (ascii '' '') s"

text \<open>\<open>(\d{1,3}(?:,\d{3})+|\d{4,})\<close>\<close>

definition rx_number :: rx where
  "rx_number = Grp 1 (Alt (Seq (Rep rx_digit 1 (Some 3))
                               (Rep (Seq (Cls [CChar 44]) (Rep rx_digit 3 (Some 3))) 1 None))
                          (Rep rx_digit 4 None))"

text \<open>\<open>(?<!\d)(\d{1,3}(?:,\d{3})+|\d{4,})\s*W\<close>, \<open>W\<close> the currency unit.\<close>

definition rx_amount_won :: rx where
  "rx_amount_won = seqs [NotBehind [CDigit], rx_number, rx_ws0, Cls [CChar ch_won]]"

text \<open>\<open>(?<!\d)(\d{1,3}(?:,\d{3})+|\d{4,})(?!\d)\<close>\<close>

definition rx_amount :: rx where
  "rx_amount = seqs [NotBehind [CDigit], rx_number, NotAhead [CDigit]]"

text \<open>\<open>int(n.replace(",", ""))\<close> outside any \<open>try\<close>: the error leaves the function.\<close>

definition amount_of :: "nat option \<Rightarrow> ustr \<Rightarrow> error + nat" where
  "amount_of lim t = (case py_int lim (remove_commas t) of
                        None \<Rightarrow> Inl ValueError | Some v \<Rightarrow> Inr v)"

fun first_in_range :: "nat option \<Rightarrow> ustr list \<Rightarrow> error + nat option" where
  "first_in_range lim [] = Inr None"
| "first_in_range lim (n # ns) =
     (case amount_of lim n of
        Inl e \<Rightarrow> Inl e
      | Inr val \<Rightarrow> if in_fine_range val then Inr (Some val) else first_in_range lim ns)"

definition find_amount_after_keyword :: "nat option \<Rightarrow> ustr \<Rightarrow> error + nat option" where
  "find_amount_after_keyword lim segment =
     (let seg = strip_hyphen_codes segment in
      case re_search rx_amount_won seg of
        Some m \<Rightarrow>
          (case amount_of lim (group_text m 1) of
             Inl e \<Rightarrow> Inl e
           | Inr val \<Rightarrow> if in_fine_range val then Inr (Some val)
                        else first_in_range lim (re_findall 1 rx_amount seg))
      | None \<Rightarrow> first_in_range lim (re_findall 1 rx_amount seg))"

text \<open>\<open>line[line.find(key) + len(key):]\<close> for a \<open>key\<close> that occurs in \<open>line\<close>.\<close>

fun after_key :: "ustr \<Rightarrow> ustr \<Rightarrow> ustr" where
  "after_key key [] = []"
| "after_key key (c # cs) =
     (if starts_with key (c # cs) then drop (length key) (c # cs) else after_key key cs)"

text \<open>The keywords of tier 1 (amount to pay, amount within the term), of tier 2 (fine)
  and its two excluded qualifiers (reduction, surcharge).\<close>

definition kw_pay :: ustr where "kw_pay = [45225, 48512, 44552, 50529]"
definition kw_pay_in_term :: ustr where "kw_pay_in_term = [45225, 44592, 45236, 44552, 50529]"
definition kw_fine :: ustr where "kw_fine = [44284, 53468, 47308]"
definition kw_reduced :: ustr where "kw_reduced = [44048, 44221]"
definition kw_surcharge :: ustr where "kw_surcharge = [44032, 49328]"

text \<open>The inner loop of tier 1, for one keyword.\<close>

fun scan_key :: "nat option \<Rightarrow> ustr \<Rightarrow> ustr list \<Rightarrow> error + ustr option" where
  "scan_key lim key [] = Inr None"
| "scan_key lim key (line # rest) =
     (if str_in key line
      then (case find_amount_after_keyword lim (with_next (after_key key line) rest) of
              Inl e \<Rightarrow> Inl e
            | Inr (Some amt) \<Rightarrow> Inr (Some (fmt_won amt))
            | Inr None \<Rightarrow> scan_key lim key rest)
      else scan_key lim key rest)"

fun scan_keys :: "nat option \<Rightarrow> ustr list \<Rightarrow> ustr list \<Rightarrow> error + ustr option" where
  "scan_keys lim [] lines = Inr None"
| "scan_keys lim (key # keys) lines =
     (case scan_key lim key lines of
        Inl e \<Rightarrow> Inl e
      | Inr (Some r) \<Rightarrow> Inr (Some r)
      | Inr None \<Rightarrow> scan_keys lim keys lines)"

text \<open>Tier 2.\<close>

fun scan_fine :: "nat option \<Rightarrow> ustr list \<Rightarrow> error + ustr option" where
  "scan_fine lim [] = Inr None"
| "scan_fine lim (line # rest) =
     (if str_in kw_fine line \<and> \<not> str_in kw_reduced line \<and> \<not> str_in kw_surcharge line
      then (case find_amount_after_keyword lim (with_next (after_key kw_fine line) rest) of
              Inl e \<Rightarrow> Inl e
            | Inr (Some amt) \<Rightarrow> Inr (Some (fmt_won amt))
            | Inr None \<Rightarrow> scan_fine lim rest)
      else scan_fine lim rest)"

text \<open>\<open>"\n".join(lines)\<close>\<close>

fun join_lines :: "ustr list \<Rightarrow> ustr" where
  "join_lines [] = []"
| "join_lines [l] = l"
| "join_lines (l # m # ls) = l @ [10] @ join_lines (m # ls)"

text \<open>Tier 4.\<close>

definition any_number :: "nat option \<Rightarrow> ustr \<Rightarrow> error + ustr" where
  "any_number lim cleaned =
     (case first_in_range lim (re_findall 1 rx_amount cleaned) of
        Inl e \<Rightarrow> Inl e
      | Inr (Some val) \<Rightarrow> Inr (fmt_won val)
      | Inr None \<Rightarrow> Inr [])"

text \<open>Tiers 3 and 4.\<close>

definition amount_anywhere :: "nat option \<Rightarrow> ustr \<Rightarrow> error + ustr" where
  "amount_anywhere lim cleaned =
     (case re_search rx_amount_won cleaned of
        Some m \<Rightarrow>
          (case amount_of lim (group_text m 1) of
             Inl e \<Rightarrow> Inl e
           | Inr val \<Rightarrow> if in_fine_range val then Inr (fmt_won val)
                        else any_number lim cleaned)
      | None \<Rightarrow> any_number lim cleaned)"

definition extract_fine_amount_from_text :: "nat option \<Rightarrow> ustr \<Rightarrow> error + ustr" where
  "extract_fine_amount_from_text lim text =
     (if text = [] then Inr []
      else (let lines = split_lines text in
        case scan_keys lim [kw_pay, kw_pay_in_term] lines of
          Inl e \<Rightarrow> Inl e
        | Inr (Some r) \<Rightarrow> Inr r
        | Inr None \<Rightarrow>
        (case scan_fine lim lines of
          Inl e \<Rightarrow> Inl e
        | Inr (Some r) \<Rightarrow> Inr r
        | Inr None \<Rightarrow> amount_anywhere lim (strip_hyphen_codes (join_lines lines)))))"

section \<open>The final record and the reduced amount\<close>

text \<open>
  \<open>int(fine_amount * 0.8)\<close> is computed in binary floating point. A double has 53
  significant bits; \<open>round53\<close> rounds a natural number to 53 significant bits, ties to
  even. \<open>float(n)\<close> is \<open>round53 n\<close>, an \<open>OverflowError\<close> from \<open>2^1024\<close> on. The double
  \<open>0.8\<close> is \<open>3602879701896397 / 2^52\<close>, so the product of the double \<open>d\<close> by it is
  \<open>round53 (d * 3602879701896397) / 2^52\<close>, and \<open>int\<close> drops the fraction.
\<close>

fun bitlen :: "nat \<Rightarrow> nat" where
  "bitlen n = (if n = 0 then 0 else Suc (bitlen (n div 2)))"

declare bitlen.simps [simp del]

definition round53 :: "nat \<Rightarrow> nat" where
  "round53 n =
     (let b = bitlen n in
      if b \<le> 53 then n
      else (let sh = b - 53; q = n div 2 ^ sh; r = n mod 2 ^ sh; h = 2 ^ (sh - 1)
            in (if h < r \<or> (r = h \<and> odd q) then q + 1 else q) * 2 ^ sh))"

definition float_of_nat :: "nat \<Rightarrow> nat option" where
  "float_of_nat n = (let d = round53 n in if 2 ^ 1024 \<le> d then None else Some d)"

definition int_times_08 :: "nat \<Rightarrow> nat option" where
  "int_times_08 n =
     (case float_of_nat n of
        None \<Rightarrow> None
      | Some d \<Rightarrow> Some (round53 (d * 3602879701896397) div 2 ^ 52))"

text \<open>The \<open>try\<close> block of the reduced amount; \<open>re.sub(r'[^\d]', '', fine_text)\<close> keeps
  the digits.\<close>

definition discounted_fine :: "nat option \<Rightarrow> ustr \<Rightarrow> ustr" where
  "discounted_fine lim fine_text =
     (case (if fine_text = [] then Some 0 else py_int lim (filter is_digit fine_text)) of
        None \<Rightarrow> []
      | Some fine_amount \<Rightarrow>
          (case int_times_08 fine_amount of
             None \<Rightarrow> []
           | Some discounted \<Rightarrow> fmt_won discounted))"

text \<open>The column names: vehicle number, name, user, department; and the text written
  where no vehicle matched.\<close>

definition col_plate :: ustr where "col_plate = [52264, 47049, 48264, 54840]"
definition col_name :: ustr where "col_name = [49457, 47749]"
definition col_user :: ustr where "col_user = [49324, 50857, 51088]"
definition col_department :: ustr where "col_department = [48512, 49436]"
definition match_failed :: ustr where "match_failed = [47588, 52845, 32, 49892, 54056]"

type_synonym row = "(ustr \<times> ustr) list"

record final_result =
  r_department :: ustr
  r_user :: ustr
  r_plate :: ustr
  r_date :: ustr
  r_location :: ustr
  r_content :: ustr
  r_fine :: ustr
  r_due :: ustr
  r_discounted :: ustr

definition compile_final_results ::
    "nat \<Rightarrow> nat option \<Rightarrow> (field \<times> ustr) list \<Rightarrow> row option \<Rightarrow> final_result" where
  "compile_final_results cur_year lim ocr_results matched_vehicle =
     \<lparr>r_department = (case matched_vehicle of
                        Some v \<Rightarrow> dict_get v col_department [] | None \<Rightarrow> match_failed),
      r_user = (case matched_vehicle of
                  Some v \<Rightarrow> (if map_of v col_name \<noteq> None then dict_get v col_name []
                             else if map_of v col_user \<noteq> None then dict_get v col_user []
                             else [])
                | None \<Rightarrow> match_failed),
      r_plate = (case matched_vehicle of
                   Some v \<Rightarrow> dict_get v col_plate []
                 | None \<Rightarrow> dict_get ocr_results PlateNumber []),
      r_date = fmt_date_uniform cur_year lim (dict_get ocr_results ViolationDate []),
      r_location = dict_get ocr_results Location [],
      r_content = dict_get ocr_results Description [],
      r_fine = dict_get ocr_results Fine [],
      r_due = fmt_date_uniform cur_year lim (dict_get ocr_results DueDate []),
      r_discounted = discounted_fine lim (dict_get ocr_results Fine [])\<rparr>"

section \<open>Matching the vehicle number against the roster\<close>

text \<open>\<open>runs[-1][-4:]\<close> of the digit runs of a string, when there is a run.\<close>

definition last4_of :: "ustr \<Rightarrow> ustr option" where
  "last4_of s = (case re_findall 0 rx_digits s of
                   [] \<Rightarrow> None
                 | r # rs \<Rightarrow> (let l = last (r # rs) in Some (drop (length l - 4) l)))"

text \<open>
  The similarity of two strings is \<open>difflib.SequenceMatcher(None, a, b).ratio()\<close>, a
  library function: the matcher takes it as the parameter \<open>sim\<close>, and \<open>ratio\<close> of the next
  section is that function. One turn of the loop, on the pair of \<open>best\<close> and
  \<open>best_score\<close>:
\<close>

definition match_step ::
    "(ustr \<Rightarrow> ustr \<Rightarrow> 's::linorder) \<Rightarrow> ustr \<Rightarrow> ustr \<Rightarrow> row option \<times> 's \<Rightarrow> row \<Rightarrow> row option \<times> 's" where
  "match_step sim ocr_vehicle_number last4 acc r =
     (let vehicle_num = dict_get r col_plate [] in
      case last4_of vehicle_num of
        None \<Rightarrow> acc
      | Some v_last4 \<Rightarrow>
          if v_last4 = last4
          then (let s = sim ocr_vehicle_number vehicle_num in
                if snd acc < s then (Some r, s) else acc)
          else acc)"

definition match_vehicle_number ::
    "(ustr \<Rightarrow> ustr \<Rightarrow> 's::{linorder,zero}) \<Rightarrow> ustr \<Rightarrow> row list option \<Rightarrow> row option" where
  "match_vehicle_number sim ocr_vehicle_number vehicle_users_df =
     (case vehicle_users_df of
        None \<Rightarrow> None
      | Some rows \<Rightarrow>
          if ocr_vehicle_number = [] then None
          else (case last4_of ocr_vehicle_number of
                  None \<Rightarrow> None
                | Some last4 \<Rightarrow>
                    if length last4 \<noteq> 4 then None
                    else fst (foldl (match_step sim ocr_vehicle_number last4) (None, 0) rows)))"

section \<open>The similarity of two strings\<close>

text \<open>
  The similarity in the program is \<open>difflib.SequenceMatcher(None, a, b).ratio()\<close> of the
  standard library, on strings of fewer than \<open>2^63\<close> characters. \<open>ratio\<close> below is that
  function: no junk test (\<open>isjunk\<close> is \<open>None\<close>) and the automatic junk heuristic switched on,
  as in the call of the program.

  \<open>__chain_b\<close>: when \<open>b\<close> has 200 elements or more, an element that occurs more than
  \<open>len(b) // 100 + 1\<close> times in \<open>b\<close> is popular. \<open>b2j\<close> maps an element to the ascending
  list of its indices in \<open>b\<close>; the popular elements are deleted from it, and
  \<open>b2j.get(elt, [])\<close> is empty for them and for the elements that \<open>b\<close> does not have.
\<close>

definition popular :: "ustr \<Rightarrow> nat \<Rightarrow> bool" where
  "popular b elt = (200 \<le> length b \<and> length b div 100 + 1 < count_list b elt)"

definition b2j :: "ustr \<Rightarrow> nat \<Rightarrow> nat list" where
  "b2j b elt = (if popular b elt then [] else filter (\<lambda>j. b ! j = elt) [0..<length b])"

text \<open>
  \<open>find_longest_match(alo, ahi, blo, bhi)\<close>. The dictionaries \<open>j2len\<close> and \<open>newj2len\<close>
  are lists of pairs of a key and a value; \<open>j2len.get(j - 1, 0)\<close> is 0 at \<open>j = 0\<close>, as no
  key is negative. The body of \<open>for j in b2j.get(a[i], nothing)\<close>, with its \<open>continue\<close>
  below \<open>blo\<close> and its \<open>break\<close> from \<open>bhi\<close> on, and the triple \<open>besti, bestj, bestsize\<close>;
  \<open>k\<close> is at most \<open>i - alo + 1\<close>, so \<open>i - k + 1\<close> is written \<open>i + 1 - k\<close>:
\<close>

definition j2len_get :: "(nat \<times> nat) list \<Rightarrow> nat \<Rightarrow> nat" where
  "j2len_get j2len j =
     (if j = 0 then 0 else (case map_of j2len (j - 1) of None \<Rightarrow> 0 | Some v \<Rightarrow> v))"

type_synonym block = "nat \<times> nat \<times> nat"

fun inner_loop ::
    "(nat \<times> nat) list \<Rightarrow> nat \<Rightarrow> nat \<Rightarrow> nat \<Rightarrow> nat list \<Rightarrow> (nat \<times> nat) list \<times> block
       \<Rightarrow> (nat \<times> nat) list \<times> block" where
  "inner_loop j2len i blo bhi [] st = st"
| "inner_loop j2len i blo bhi (j # js) (newj2len, besti, bestj, bestsize) =
     (if j < blo then inner_loop j2len i blo bhi js (newj2len, besti, bestj, bestsize)
      else if bhi \<le> j then (newj2len, besti, bestj, bestsize)
      else (let k = j2len_get j2len j + 1 in
            inner_loop j2len i blo bhi js
              ((j, k) # newj2len,
               if bestsize < k then (i + 1 - k, j + 1 - k, k) else (besti, bestj, bestsize))))"

text \<open>The loop \<open>for i in range(alo, ahi)\<close>, on the list of the values of \<open>i\<close>.\<close>

fun outer_loop ::
    "ustr \<Rightarrow> ustr \<Rightarrow> nat \<Rightarrow> nat \<Rightarrow> nat list \<Rightarrow> (nat \<times> nat) list \<times> block \<Rightarrow> block" where
  "outer_loop a b blo bhi [] (j2len, best) = best"
| "outer_loop a b blo bhi (i # is) (j2len, best) =
     outer_loop a b blo bhi is (inner_loop j2len i blo bhi (b2j b (a ! i)) ([], best))"

text \<open>
  The two loops that extend the match at both ends with equal elements. With no junk,
  \<open>isbjunk\<close> is false everywhere: its negation is dropped from the conditions of these
  two loops, and the two loops after them, which extend the match with junk, never run.
\<close>

fun extend_back :: "ustr \<Rightarrow> ustr \<Rightarrow> nat \<Rightarrow> nat \<Rightarrow> block \<Rightarrow> block" where
  "extend_back a b alo blo (besti, bestj, bestsize) =
     (if alo < besti \<and> blo < bestj \<and> a ! (besti - 1) = b ! (bestj - 1)
      then extend_back a b alo blo (besti - 1, bestj - 1, bestsize + 1)
      else (besti, bestj, bestsize))"

function extend_forward :: "ustr \<Rightarrow> ustr \<Rightarrow> nat \<Rightarrow> nat \<Rightarrow> block \<Rightarrow> block" where
  "extend_forward a b ahi bhi (besti, bestj, bestsize) =
     (if besti + bestsize < ahi \<and> bestj + bestsize < bhi
         \<and> a ! (besti + bestsize) = b ! (bestj + bestsize)
      then extend_forward a b ahi bhi (besti, bestj, bestsize + 1)
      else (besti, bestj, bestsize))"
  by pat_completeness auto
termination
  by (relation "measure (\<lambda>(a, b, ahi, bhi, besti, bestj, bestsize). ahi - (besti + bestsize))")
     auto

declare extend_back.simps [simp del] extend_forward.simps [simp del]

definition find_longest_match :: "ustr \<Rightarrow> ustr \<Rightarrow> nat \<Rightarrow> nat \<Rightarrow> nat \<Rightarrow> nat \<Rightarrow> block" where
  "find_longest_match a b alo ahi blo bhi =
     extend_forward a b ahi bhi
       (extend_back a b alo blo (outer_loop a b blo bhi [alo..<ahi] ([], alo, blo, 0)))"

text \<open>
  The loop of \<open>get_matching_blocks\<close> on its stack \<open>queue\<close> (the head of the list is the
  top of the stack) and the list \<open>matching_blocks\<close>. The longest match lies inside the
  range that was searched, which is why the loop ends.
\<close>

function matching_loop ::
    "ustr \<Rightarrow> ustr \<Rightarrow> (nat \<times> nat \<times> nat \<times> nat) list \<Rightarrow> block list \<Rightarrow> block list" where
  "matching_loop a b [] blocks = blocks"
| "matching_loop a b ((alo, ahi, blo, bhi) # queue) blocks =
     (case find_longest_match a b alo ahi blo bhi of
        (i, j, k) \<Rightarrow>
          if k = 0 then matching_loop a b queue blocks
          else matching_loop a b
                 ((if i + k < ahi \<and> j + k < bhi then [(i + k, ahi, j + k, bhi)] else [])
                  @ (if alo < i \<and> blo < j then [(alo, i, blo, j)] else []) @ queue)
                 (blocks @ [(i, j, k)]))"
  by pat_completeness auto
termination
proof -
  have get: "j2len_get j2len j \<le> n" if "\<forall>(j, v) \<in> set j2len. v \<le> n"
    for j2len :: "(nat \<times> nat) list" and j n
  proof (cases "j = 0")
    case True
    then show ?thesis by (simp add: j2len_get_def)
  next
    case False
    show ?thesis
    proof (cases "map_of j2len (j - 1)")
      case None
      then show ?thesis using False by (simp add: j2len_get_def)
    next
      case (Some v)
      then have "(j - 1, v) \<in> set j2len" by (rule map_of_SomeD)
      then have "v \<le> n" using that by auto
      then show ?thesis using False Some by (simp add: j2len_get_def)
    qed
  qed
  have inner: "(\<forall>(j, v) \<in> set new. v + alo \<le> i + 1) \<and> alo \<le> bi \<and> bi + bs \<le> i + 1"
    if "\<forall>(j, v) \<in> set j2len. v + alo \<le> i" and "alo \<le> i"
      and "alo \<le> besti \<and> besti + bestsize \<le> i + 1"
      and "inner_loop j2len i blo bhi js (newj2len, besti, bestj, bestsize) = (new, bi, bj, bs)"
      and "\<forall>(j, v) \<in> set newj2len. v + alo \<le> i + 1"
    for j2len newj2len new :: "(nat \<times> nat) list"
      and alo i blo bhi js besti bestj bestsize bi bj bs
    using that(3-5)
  proof (induction js arbitrary: newj2len besti bestj bestsize)
    case Nil
    then show ?case by simp
  next
    case (Cons j js)
    show ?case
    proof (cases "j < blo")
      case True
      then have "inner_loop j2len i blo bhi js (newj2len, besti, bestj, bestsize)
          = (new, bi, bj, bs)"
        using Cons.prems(2) by simp
      then show ?thesis using Cons.IH Cons.prems(1,3) by blast
    next
      case False
      note nlo = False
      show ?thesis
      proof (cases "bhi \<le> j")
        case True
        then show ?thesis using nlo Cons.prems by auto
      next
        case False
        define k where "k = Suc (j2len_get j2len j)"
        have "\<forall>(j, v) \<in> set j2len. v \<le> i - alo" using that(1,2) by auto
        then have "j2len_get j2len j \<le> i - alo" by (rule get)
        then have kb: "k + alo \<le> i + 1" using that(2) by (simp add: k_def)
        define best' where "best' = (if bestsize < k then (i + 1 - k, j + 1 - k, k)
                                     else (besti, bestj, bestsize))"
        obtain bi' bj' bs' where b': "best' = (bi', bj', bs')" by (cases best') auto
        have run: "inner_loop j2len i blo bhi js ((j, k) # newj2len, bi', bj', bs')
            = (new, bi, bj, bs)"
          using Cons.prems(2) nlo False b' unfolding k_def best'_def by (simp add: Let_def)
        have "alo \<le> bi' \<and> bi' + bs' \<le> i + 1"
          using b' kb Cons.prems(1) unfolding best'_def by (auto split: if_splits)
        moreover have "\<forall>(j, v) \<in> set ((j, k) # newj2len). v + alo \<le> i + 1"
          using kb Cons.prems(3) by auto
        ultimately show ?thesis using Cons.IH run by blast
      qed
    qed
  qed
  have outer: "alo \<le> bi \<and> bi + bs \<le> ahi"
    if "outer_loop a b blo bhi [i..<ahi] (j2len, besti, bestj, bestsize) = (bi, bj, bs)"
      and "\<forall>(j, v) \<in> set j2len. v + alo \<le> i" and "alo \<le> i" and "i \<le> ahi"
      and "alo \<le> besti \<and> besti + bestsize \<le> i"
    for a b :: ustr and j2len :: "(nat \<times> nat) list"
      and alo ahi blo bhi i besti bestj bestsize bi bj bs
    using that
  proof (induction "ahi - i" arbitrary: i j2len besti bestj bestsize)
    case 0
    then show ?case by simp
  next
    case (Suc n)
    then have lt: "i < ahi" by simp
    obtain new bi' bj' bs' where
      run: "inner_loop j2len i blo bhi (b2j b (a ! i)) ([], besti, bestj, bestsize)
              = (new, bi', bj', bs')"
      by (metis prod_cases4)
    have "alo \<le> besti \<and> besti + bestsize \<le> i + 1" using Suc.prems(5) by simp
    then have inv: "(\<forall>(j, v) \<in> set new. v + alo \<le> i + 1) \<and> alo \<le> bi' \<and> bi' + bs' \<le> i + 1"
      using inner [OF Suc.prems(2) Suc.prems(3) _ run] by simp
    have "outer_loop a b blo bhi [Suc i..<ahi] (new, bi', bj', bs') = (bi, bj, bs)"
      using Suc.prems(1) lt run by (simp add: upt_conv_Cons)
    moreover have "n = ahi - Suc i" using Suc.hyps(2) by simp
    ultimately show ?case using Suc.hyps(1) [of "Suc i" new bi' bj' bs'] inv lt Suc.prems(3)
      by simp
  qed
  have ext_back: "alo \<le> bi \<and> bi + bs \<le> ahi"
    if "extend_back a b alo blo (besti, bestj, bestsize) = (bi, bj, bs)"
      and "alo \<le> besti \<and> besti + bestsize \<le> ahi"
    for a b :: ustr and alo ahi blo besti bestj bestsize bi bj bs
    using that
  proof (induction a b alo blo "(besti, bestj, bestsize)" arbitrary: besti bestj bestsize
      rule: extend_back.induct)
    case (1 a b alo blo besti bestj bestsize)
    show ?case
    proof (cases "alo < besti \<and> blo < bestj \<and> a ! (besti - 1) = b ! (bestj - 1)")
      case True
      then have "extend_back a b alo blo (besti, bestj, bestsize)
          = extend_back a b alo blo (besti - 1, bestj - 1, bestsize + 1)"
        by (subst extend_back.simps) simp
      then have "extend_back a b alo blo (besti - 1, bestj - 1, bestsize + 1) = (bi, bj, bs)"
        using "1.prems"(1) by simp
      moreover have "alo \<le> besti - 1 \<and> besti - 1 + (bestsize + 1) \<le> ahi"
        using True "1.prems"(2) by auto
      ultimately show ?thesis using "1.hyps" True by blast
    next
      case False
      have "extend_back a b alo blo (besti, bestj, bestsize) = (besti, bestj, bestsize)"
        by (subst extend_back.simps) (rule if_not_P [OF False])
      then have "(besti, bestj, bestsize) = (bi, bj, bs)" using "1.prems"(1) by simp
      then show ?thesis using "1.prems"(2) by simp
    qed
  qed
  have ext_forward: "alo \<le> bi \<and> bi + bs \<le> ahi"
    if "extend_forward a b ahi bhi (besti, bestj, bestsize) = (bi, bj, bs)"
      and "alo \<le> besti \<and> besti + bestsize \<le> ahi"
    for a b :: ustr and alo ahi bhi besti bestj bestsize bi bj bs
    using that
  proof (induction a b ahi bhi "(besti, bestj, bestsize)" arbitrary: besti bestj bestsize
      rule: extend_forward.induct)
    case (1 a b ahi bhi besti bestj bestsize)
    show ?case
    proof (cases "besti + bestsize < ahi \<and> bestj + bestsize < bhi
           \<and> a ! (besti + bestsize) = b ! (bestj + bestsize)")
      case True
      then have "extend_forward a b ahi bhi (besti, bestj, bestsize)
          = extend_forward a b ahi bhi (besti, bestj, bestsize + 1)"
        by (subst extend_forward.simps) simp
      then have "extend_forward a b ahi bhi (besti, bestj, bestsize + 1) = (bi, bj, bs)"
        using "1.prems"(1) by simp
      moreover have "alo \<le> besti \<and> besti + (bestsize + 1) \<le> ahi"
        using True "1.prems"(2) by auto
      ultimately show ?thesis using "1.hyps" True by blast
    next
      case False
      have "extend_forward a b ahi bhi (besti, bestj, bestsize) = (besti, bestj, bestsize)"
        by (subst extend_forward.simps) (rule if_not_P [OF False])
      then have "(besti, bestj, bestsize) = (bi, bj, bs)" using "1.prems"(1) by simp
      then show ?thesis using "1.prems"(2) by simp
    qed
  qed
  have bounds: "alo \<le> i \<and> i + k \<le> ahi"
    if "find_longest_match a b alo ahi blo bhi = (i, j, k)" and "k \<noteq> 0"
    for a b :: ustr and alo ahi blo bhi i j k
  proof (cases "alo \<le> ahi")
    case True
    obtain i1 j1 k1 where
      o: "outer_loop a b blo bhi [alo..<ahi] ([], alo, blo, 0) = (i1, j1, k1)"
      by (metis prod_cases3)
    obtain i2 j2 k2 where e: "extend_back a b alo blo (i1, j1, k1) = (i2, j2, k2)"
      by (metis prod_cases3)
    have f: "extend_forward a b ahi bhi (i2, j2, k2) = (i, j, k)"
      using that(1) o e by (simp add: find_longest_match_def)
    have "alo \<le> i1 \<and> i1 + k1 \<le> ahi"
      using outer [OF o, of alo] True by simp
    then have "alo \<le> i2 \<and> i2 + k2 \<le> ahi" by (rule ext_back [OF e])
    then show ?thesis by (rule ext_forward [OF f])
  next
    case False
    then have "find_longest_match a b alo ahi blo bhi = (alo, blo, 0)"
      by (simp add: find_longest_match_def extend_back.simps [of a b alo blo alo blo 0]
          extend_forward.simps [of a b ahi bhi alo blo 0])
    then show ?thesis using that by simp
  qed
  let ?R = "measure (\<lambda>(a :: ustr, b :: ustr, queue :: (nat \<times> nat \<times> nat \<times> nat) list,
                       blocks :: block list).
               sum_list (map (\<lambda>(alo, ahi, blo, bhi). 2 * (ahi - alo) + 1) queue))"
  show ?thesis
  proof (relation ?R)
    show "wf ?R" by simp
  next
    fix a b :: ustr and alo ahi blo bhi :: nat and queue :: "(nat \<times> nat \<times> nat \<times> nat) list"
      and blocks :: "block list" and k :: nat
    assume "k = 0"
    show "((a, b, queue, blocks), a, b, (alo, ahi, blo, bhi) # queue, blocks) \<in> ?R" by simp
  next
    fix a b :: ustr and alo ahi blo bhi :: nat and queue :: "(nat \<times> nat \<times> nat \<times> nat) list"
      and blocks :: "block list" and i j k :: nat and y :: "nat \<times> nat"
    assume "(i, y) = find_longest_match a b alo ahi blo bhi" and "(j, k) = y" and k: "k \<noteq> 0"
    then have "find_longest_match a b alo ahi blo bhi = (i, j, k)" by simp
    then have "alo \<le> i \<and> i + k \<le> ahi" using k by (rule bounds)
    then show "((a, b, (if i + k < ahi \<and> j + k < bhi then [(i + k, ahi, j + k, bhi)] else [])
                    @ (if alo < i \<and> blo < j then [(alo, i, blo, j)] else []) @ queue,
                 blocks @ [(i, j, k)]), a, b, (alo, ahi, blo, bhi) # queue, blocks) \<in> ?R"
      using k by auto
  qed
qed

text \<open>
  \<open>ratio\<close> adds the sizes of the blocks of \<open>get_matching_blocks\<close>. The sort of the list,
  the merge of adjacent blocks and the last block, of size 0, leave this sum unchanged,
  and are left out.
\<close>

definition matching_blocks :: "ustr \<Rightarrow> ustr \<Rightarrow> block list" where
  "matching_blocks a b = matching_loop a b [(0, length a, 0, length b)] []"

definition matched :: "block list \<Rightarrow> nat" where
  "matched blocks = sum_list (map (\<lambda>(i, j, k). k) blocks)"

text \<open>
  \<open>_calculate_ratio\<close>: \<open>2.0 * matches / length\<close>, and \<open>1.0\<close> when \<open>length\<close> is 0. The
  result is a double, written here as a natural number of units of \<open>2^-1074\<close>, of which
  every double from 0 on is a multiple: the order of these numbers is the order of the
  doubles, and the integer 0 that the program compares with is 0. \<open>fdiv n d\<close> is the
  quotient of the doubles of the integers \<open>n\<close> and \<open>d\<close>, rounded to 53 significant bits,
  ties to even (to a multiple of the unit below \<open>2^-1022\<close>).
\<close>

definition fdiv :: "nat \<Rightarrow> nat \<Rightarrow> nat" where
  "fdiv n d =
     (let x = n * 2 ^ 1074; sh = bitlen (x div d) - 53; u = d * 2 ^ sh;
          q = x div u; r = x mod u
      in (if u < 2 * r \<or> (2 * r = u \<and> odd q) then q + 1 else q) * 2 ^ sh)"

definition calculate_ratio :: "nat \<Rightarrow> nat \<Rightarrow> nat" where
  "calculate_ratio matches len =
     (if len \<noteq> 0 then fdiv (2 * round53 matches) (round53 len) else 2 ^ 1074)"

definition ratio :: "ustr \<Rightarrow> ustr \<Rightarrow> nat" where
  "ratio a b = calculate_ratio (matched (matching_blocks a b)) (length a + length b)"

section \<open>Acquisition of the template by clicks\<close>

record session =
  coordinates :: "(field \<times> int list) list"
  current_field_index :: nat
  temp_coords :: "(int \<times> int) list"
  click_step :: nat
  last_click_sig :: "(int \<times> int \<times> nat \<times> nat) option"

definition init_session :: session where
  "init_session = \<lparr>coordinates = [], current_field_index = 0, temp_coords = [],
                    click_step = 0, last_click_sig = None\<rparr>"

text \<open>\<open>handle_image_click\<close>; \<open>temp_coords[0]\<close> raises on an empty list.\<close>

definition handle_image_click :: "int \<Rightarrow> int \<Rightarrow> session \<Rightarrow> error + session" where
  "handle_image_click x y st =
     (if click_step st = 0
      then Inr (st\<lparr>temp_coords := [(x, y)], click_step := 1\<rparr>)
      else (case temp_coords st of
              [] \<Rightarrow> Inl IndexError
            | (x1, y1) # _ \<Rightarrow>
                Inr (st\<lparr>temp_coords := [(min x1 x, min y1 y), (max x1 x, max y1 y)]\<rparr>)))"

text \<open>
  The click handling of \<open>create_clickable_image_with_coordinates\<close>, for a click at
  \<open>(cx, cy)\<close> of the displayed image. \<open>to_image\<close> is the conversion
  \<open>int(round(c / scale))\<close> to a coordinate of the original image, of width \<open>w\<close> and
  height \<open>h\<close>.
\<close>

definition deliver_click ::
    "(int \<Rightarrow> int) \<Rightarrow> int \<Rightarrow> int \<Rightarrow> int \<times> int \<Rightarrow> session \<Rightarrow> error + session" where
  "deliver_click to_image w h clicked st =
     (case clicked of (cx, cy) \<Rightarrow>
      (let sig = (cx, cy, current_field_index st, click_step st) in
       if last_click_sig st \<noteq> Some sig
       then (let st1 = st\<lparr>last_click_sig := Some sig\<rparr>;
                 ox = to_image cx; oy = to_image cy
             in if 0 \<le> ox \<and> ox < w \<and> 0 \<le> oy \<and> oy < h
                then handle_image_click ox oy st1 else Inr st1)
       else Inr st))"

text \<open>\<open>apply_coordinates\<close>, the button that commits the two points, and the manual
  entry of \<open>show_manual_input_modal\<close>.\<close>

definition apply_coordinates :: "field \<Rightarrow> session \<Rightarrow> session" where
  "apply_coordinates current_field st =
     (case temp_coords st of
        [(x1, y1), (x2, y2)] \<Rightarrow>
          st\<lparr>coordinates := dict_set current_field [x1, y1, x2, y2] (coordinates st),
             current_field_index := current_field_index st + 1,
             temp_coords := [], click_step := 0\<rparr>
      | _ \<Rightarrow> st)"

definition apply_manual :: "int \<Rightarrow> int \<Rightarrow> int \<Rightarrow> int \<Rightarrow> field \<Rightarrow> session \<Rightarrow> session" where
  "apply_manual x1 y1 x2 y2 current_field st =
     (if x1 < x2 \<and> y1 < y2
      then st\<lparr>coordinates := dict_set current_field [x1, y1, x2, y2] (coordinates st),
              current_field_index := current_field_index st + 1,
              temp_coords := [], click_step := 0\<rparr>
      else st)"

text \<open>\<open>skip_current_field\<close>; \<open>FIELDS[current_field_index]\<close> raises when every field is
  done, before any assignment.\<close>

definition skip_current_field :: "session \<Rightarrow> error + session" where
  "skip_current_field st =
     (if current_field_index st < length FIELDS
      then Inr (st\<lparr>current_field_index := current_field_index st + 1, temp_coords := [],
                  click_step := 0\<rparr>)
      else Inl IndexError)"

definition reset_template :: "session \<Rightarrow> session" where
  "reset_template st = init_session"

section \<open>States and texts of the examples\<close>

text \<open>The first field after its first click at \<open>(50, 50)\<close>, and after a second click at
  \<open>(200, 100)\<close>.\<close>

definition awaiting_second :: session where
  "awaiting_second = \<lparr>coordinates = [], current_field_index = 0, temp_coords = [(50, 50)],
                       click_step = 1, last_click_sig = Some (50, 50, 0, 0)\<rparr>"

definition second_taken :: session where
  "second_taken = \<lparr>coordinates = [], current_field_index = 0,
                    temp_coords = [(50, 50), (200, 100)],
                    click_step = 1, last_click_sig = Some (200, 100, 0, 1)\<rparr>"

text \<open>The first field after a second click at \<open>(50, 100)\<close>, under the first one, and
  after the two points were applied.\<close>

definition degenerate_pair :: session where
  "degenerate_pair = \<lparr>coordinates = [], current_field_index = 0,
                       temp_coords = [(50, 50), (50, 100)],
                       click_step = 1, last_click_sig = Some (50, 50, 0, 0)\<rparr>"

definition degenerate_committed :: session where
  "degenerate_committed = \<lparr>coordinates = [(PlateNumber, [50, 50, 50, 100])],
                            current_field_index = 1, temp_coords = [],
                            click_step = 0, last_click_sig = Some (50, 50, 0, 0)\<rparr>"

text \<open>A template of two rectangles, and a provider that fails on the first of them and
  reads \<open>50,000\<close> anywhere else.\<close>

definition two_field_template :: "(field \<times> int list) list" where
  "two_field_template = [(PlateNumber, [0, 0, 10, 10]), (Fine, [0, 20, 10, 30])]"

definition failing_provider :: provider where
  "failing_provider r = (if r = (0, 0, 10, 10) then Inl ProviderError else Inr [ascii ''50,000''])"

section \<open>What a match can have consumed\<close>

text \<open>
  \<open>shape r w\<close>: the text \<open>w\<close> has the form of the pattern \<open>r\<close>, the conditions on
  the neighbouring characters left aside. Every match of \<open>r\<close> consumes such a text.
  \<open>caps_ok P r\<close>: for every group \<open>k\<close> of \<open>r\<close>, the texts of the form of its body
  satisfy \<open>P k\<close>.
\<close>

fun shape :: "rx \<Rightarrow> ustr \<Rightarrow> bool" where
  "shape (Cls cs) w = (\<exists>c. w = [c] \<and> in_class cs c)"
| "shape (NCls cs) w = (\<exists>c. w = [c] \<and> \<not> in_class cs c)"
| "shape Eps w = (w = [])"
| "shape (Seq a b) w = (\<exists>u v. w = u @ v \<and> shape a u \<and> shape b v)"
| "shape (Alt a b) w = (shape a w \<or> shape b w)"
| "shape (Rep r lo hi) w =
     (\<exists>ws. w = concat ws \<and> (\<forall>x \<in> set ws. shape r x) \<and> lo \<le> length ws
           \<and> (case hi of Some h \<Rightarrow> length ws \<le> h | None \<Rightarrow> True))"
| "shape (Grp k r) w = shape r w"
| "shape (NotBehind cs) w = (w = [])"
| "shape (NotAhead cs) w = (w = [])"

fun caps_ok :: "(nat \<Rightarrow> ustr \<Rightarrow> bool) \<Rightarrow> rx \<Rightarrow> bool" where
  "caps_ok P (Grp k r) = ((\<forall>w. shape r w \<longrightarrow> P k w) \<and> caps_ok P r)"
| "caps_ok P (Seq a b) = (caps_ok P a \<and> caps_ok P b)"
| "caps_ok P (Alt a b) = (caps_ok P a \<and> caps_ok P b)"
| "caps_ok P (Rep r lo hi) = caps_ok P r"
| "caps_ok P r = True"

definition grps_ok :: "(nat \<Rightarrow> ustr \<Rightarrow> bool) \<Rightarrow> mstate \<Rightarrow> bool" where
  "grps_ok P st = (\<forall>(k, t) \<in> set (grps st). P k t)"

definition reaches :: "mstate \<Rightarrow> ustr \<Rightarrow> mstate \<Rightarrow> bool" where
  "reaches st w st' = (post st = w @ post st' \<and> pre st' = rev w @ pre st)"

text \<open>A line with the vehicle-number keyword and a full plate; the reference code
  \<open>2025-063822-00\<close>; and a text whose amount to pay, 5,000, is below the range while its
  fine, 40,000, is inside.\<close>

definition plate_line :: ustr where
  "plate_line = [52264, 47049, 48264, 54840, 32, 49, 50, 44032, 51, 52, 53, 54]"




text \<open>A string of exactly four decimal digits.\<close>

definition four_digits :: "ustr \<Rightarrow> bool" where
  "four_digits r = (length r = 4 \<and> list_all is_digit r)"

section \<open>The canonical form of a date\<close>

text \<open>
  Ten characters \<open>YYYY/MM/DD\<close>: ASCII digits around two slashes, the month at most 12
  and the day at most 31 (\<open>00\<close> is the unknown month or day).
\<close>

definition ascii_digit :: "nat \<Rightarrow> bool" where
  "ascii_digit c = (48 \<le> c \<and> c \<le> 57)"

definition canonical_date :: "ustr \<Rightarrow> bool" where
  "canonical_date s =
     (length s = 10 \<and> s ! 4 = 47 \<and> s ! 7 = 47
      \<and> list_all ascii_digit (take 4 s)
      \<and> list_all ascii_digit (take 2 (drop 5 s))
      \<and> list_all ascii_digit (drop 8 s)
      \<and> digits_value (take 2 (drop 5 s)) \<le> 12
      \<and> digits_value (drop 8 s) \<le> 31)"

text \<open>The year, month and day that the cascade of the normalizer finds in a text.\<close>

definition date_fields :: "ustr \<Rightarrow> ymd" where
  "date_fields s = parse_date (clean_date s)"

text \<open>One line with the fine keyword, 50,000 and, in brackets, the reduction keyword
  with 10,000.\<close>

definition reduced_on_same_line :: ustr where
  "reduced_on_same_line = [44284, 53468, 47308, 32, 53, 48, 44, 48, 48, 48, 50896, 32, 40,
                           44048, 44221, 32, 49, 48, 44, 48, 48, 48, 50896, 41]"

section \<open>The roster entries that the matcher compares\<close>

text \<open>
  The plate string of a roster entry, and the entries of the roster that pass the test of
  the loop of the matcher: the last four characters of their last digit run are \<open>key\<close>.
\<close>

definition plate_of :: "row \<Rightarrow> ustr" where
  "plate_of r = dict_get r col_plate []"

definition same_last4 :: "ustr \<Rightarrow> row list \<Rightarrow> row list" where
  "same_last4 key rows = filter (\<lambda>r. last4_of (plate_of r) = Some key) rows"

text \<open>The first entry of a list whose score no entry of the list exceeds.\<close>

definition first_best :: "(row \<Rightarrow> 's::linorder) \<Rightarrow> row list \<Rightarrow> row option" where
  "first_best score cs = find (\<lambda>r. \<forall>r' \<in> set cs. score r' \<le> score r) cs"

text \<open>A roster of two entries with the suffix 3456 and one without; a roster of two
  entries with the same plate string; and an entry whose plate string is \<open>0\<close> and then
  fifty times \<open>3456\<close>, of 201 characters.\<close>

definition roster_3456 :: "row list" where
  "roster_3456 =
     [[(col_plate, [49, 50, 44032, 51, 52, 53, 54]), (col_name, ascii ''A'')],
      [(col_plate, [55, 55, 44032, 49, 49, 49, 49]), (col_name, ascii ''B'')],
      [(col_plate, [57, 57, 44032, 51, 52, 53, 54]), (col_name, ascii ''C'')]]"

definition roster_twins :: "row list" where
  "roster_twins =
     [[(col_plate, [57, 57, 44032, 51, 52, 53, 54]), (col_name, ascii ''C'')],
      [(col_plate, [57, 57, 44032, 51, 52, 53, 54]), (col_name, ascii ''D'')]]"

definition long_plate :: ustr where
  "long_plate = 48 # concat (replicate 50 (ascii ''3456''))"

definition long_row :: row where
  "long_row = [(col_plate, long_plate)]"

section \<open>The digit runs of a string\<close>

text \<open>The maximal runs of decimal digits of a string, from left to right.\<close>

function digit_runs :: "ustr \<Rightarrow> ustr list" where
  "digit_runs s =
     (let rest = dropWhile (\<lambda>c. \<not> is_digit c) s in
      if rest = [] then []
      else takeWhile is_digit rest # digit_runs (dropWhile is_digit rest))"
  by pat_completeness auto
termination
proof (relation "measure length")
  show "wf (measure length)" by simp
next
  fix s rest :: ustr
  assume r: "rest = dropWhile (\<lambda>c. \<not> is_digit c) s" and ne: "rest \<noteq> []"
  from ne obtain c cs where c: "rest = c # cs" by (cases rest) auto
  have "is_digit c" using r c hd_dropWhile [of "\<lambda>c. \<not> is_digit c" s] by fastforce
  then have "length (dropWhile is_digit rest) \<le> length cs"
    using c by (simp add: length_dropWhile_le)
  moreover have "length rest \<le> length s" using r by (simp add: length_dropWhile_le)
  ultimately show "(dropWhile is_digit rest, s) \<in> measure length" using c by simp
qed

declare digit_runs.simps [simp del]

text \<open>The state of the matcher after \<open>n\<close> more characters of the text.\<close>

definition adv :: "mstate \<Rightarrow> nat \<Rightarrow> mstate" where
  "adv st n = st\<lparr>pre := rev (take n (post st)) @ pre st, post := drop n (post st)\<rparr>"

section \<open>The suffix key and the candidates, in the words of the specification\<close>

text \<open>
  The suffix key of a string: the last four digits of its final digit run, none when the
  string has no digit run or the final run has fewer than four digits. The candidates for
  a key: the entries of the roster whose plate string has that suffix key.
\<close>

definition suffix_key :: "ustr \<Rightarrow> ustr option" where
  "suffix_key s =
     (case digit_runs s of
        [] \<Rightarrow> None
      | r # rs \<Rightarrow> (let l = last (r # rs) in
                   if length l < 4 then None else Some (drop (length l - 4) l)))"

definition candidates :: "ustr \<Rightarrow> row list \<Rightarrow> row list" where
  "candidates key rows = filter (\<lambda>r. suffix_key (plate_of r) = Some key) rows"

text \<open>An extracted plate \<open>99X3456\<close>, \<open>X\<close> a Hangul syllable that no roster entry has.\<close>

definition plate_99 :: ustr where
  "plate_99 = [57, 57, 45208, 51, 52, 53, 54]"

text \<open>An extracted plate equal to the plate string of the first entry of the roster.\<close>

definition plate_12 :: ustr where
  "plate_12 = [49, 50, 44032, 51, 52, 53, 54]"

section \<open>Patterns that cannot match the empty string\<close>

text \<open>
  \<open>nonnull r\<close>: by its form, \<open>r\<close> consumes at least one character. \<open>rep_ok r\<close>: every
  repeated sub-pattern of \<open>r\<close> does.
\<close>

fun nonnull :: "rx \<Rightarrow> bool" where
  "nonnull (Cls cs) = True"
| "nonnull (NCls cs) = True"
| "nonnull Eps = False"
| "nonnull (Seq a b) = (nonnull a \<or> nonnull b)"
| "nonnull (Alt a b) = (nonnull a \<and> nonnull b)"
| "nonnull (Rep r lo hi) = (0 < lo \<and> nonnull r)"
| "nonnull (Grp k r) = nonnull r"
| "nonnull (NotBehind cs) = False"
| "nonnull (NotAhead cs) = False"

fun rep_ok :: "rx \<Rightarrow> bool" where
  "rep_ok (Seq a b) = (rep_ok a \<and> rep_ok b)"
| "rep_ok (Alt a b) = (rep_ok a \<and> rep_ok b)"
| "rep_ok (Rep r lo hi) = (nonnull r \<and> rep_ok r)"
| "rep_ok (Grp k r) = rep_ok r"
| "rep_ok r = True"

text \<open>The patterns of the program: those given to \<open>re.findall\<close> and \<open>re.sub\<close>, and
  those given to \<open>re.search\<close>.\<close>

definition scan_patterns :: "rx list" where
  "scan_patterns = [rx_digits, rx_amount, rx_num_commas, rx_hyphen_code, rx_ws1,
                    rx_not_date_char]"

definition search_patterns :: "rx list" where
  "search_patterns = [rx_ymd8, rx_ymd6, rx_sep_ymd, rx_year_k, rx_month_k, rx_day_k, rx_md,
                      rx_plate_tight, rx_plate_loose, rx_last4, rx_amount_won]"

text \<open>\<open>binds k r\<close>: by the form of \<open>r\<close>, group \<open>k\<close> takes part in every match of \<open>r\<close>.\<close>

fun binds :: "nat \<Rightarrow> rx \<Rightarrow> bool" where
  "binds k (Grp j r) = (j = k \<or> binds k r)"
| "binds k (Seq a b) = (binds k a \<or> binds k b)"
| "binds k (Alt a b) = (binds k a \<and> binds k b)"
| "binds k (Rep r lo hi) = (0 < lo \<and> binds k r)"
| "binds k r = False"

section \<open>Evaluation of the model on given texts\<close>

lemma is_digit_low: "c < 1632 \<Longrightarrow> is_digit c = (48 \<le> c \<and> c \<le> 57)"
  unfolding is_digit_def nd_zeros_def by auto

lemma is_digit_hangul: "44026 \<le> c \<Longrightarrow> c < 65296 \<Longrightarrow> is_digit c = False"
  unfolding is_digit_def nd_zeros_def by simp

lemma digit_val_low: "c < 1632 \<Longrightarrow> digit_val c = (if 48 \<le> c \<and> c \<le> 57 then c - 48 else 0)"
  unfolding digit_val_def nd_zeros_def by simp

lemma reps_numeral:
  "reps f (numeral k) lo st =
     concat (map (reps f (pred_numeral k) (lo - 1)) (f st)) @ (if lo = 0 then [st] else [])"
  by (simp add: numeral_eq_Suc)

lemma replicate_numeral_unfold:
  "replicate (numeral k) x = x # replicate (pred_numeral k) x"
  by (simp add: numeral_eq_Suc)

lemma over_limit_short: "length s \<le> 640 \<Longrightarrow> over_limit lim s = False"
  by (cases lim) (simp_all add: over_limit_def)

lemmas eval_chars = is_digit_low is_digit_hangul digit_val_low is_space_def ascii_def
  ch_year_def ch_month_def ch_day_def ch_won_def

lemmas eval_rx = re_search_def re_sub_def re_findall_def match_at_def seqs_def in_class_def
  step_char_def consumed_def group_def group_text_def group_of_def found_def reps_numeral
  findall_from.simps sub_from.simps
  Let_def py_strip_def

lemmas eval_num = py_int_def over_limit_short digits_value_def fmt02_def fmt04_def zero_pad_def
  digits10.simps fmt_commas.simps
  replicate_numeral_unfold remove_commas_def in_fine_range_def fmt_won_def

lemmas date_rx = rx_digit_def rx_ws0_def rx_ws1_def rx_sep_def rx_not_date_char_def
  rx_ymd8_def rx_ymd6_def rx_sep_ymd_def rx_year_k_def rx_month_k_def rx_day_k_def
  rx_md_def rx_digits_def

section \<open>The date normalizer on the vectors of the specification\<close>

lemma date_vec_empty: "fmt_date_uniform cy lim [] = fmt04 cy @ ascii ''/00/00''"
  by (simp add: fmt_date_uniform_def unknown_date_def)

lemma parse_vec1: "parse_date (clean_date (ascii ''2024.3.5'')) = (Some (ascii ''2024''), Some (ascii ''3''), Some (ascii ''5''))"
  by (simp add: parse_date_def clean_date_def eval_rx eval_chars date_rx)

lemma parse_vec2: "parse_date (clean_date (ascii ''24-3-5'')) = (Some (ascii ''24''), Some (ascii ''3''), Some (ascii ''5''))"
  by (simp add: parse_date_def clean_date_def eval_rx eval_chars date_rx)

lemma parse_vec3: "parse_date (clean_date (ascii ''03-05'')) = (None, Some (ascii ''03''), Some (ascii ''05''))"
  by (simp add: parse_date_def clean_date_def eval_rx eval_chars date_rx)

lemma parse_vec4: "parse_date (clean_date (ascii ''20240305'')) = (Some (ascii ''2024''), Some (ascii ''03''), Some (ascii ''05''))"
  by (simp add: parse_date_def clean_date_def eval_rx eval_chars date_rx)

lemma parse_vec5: "parse_date (clean_date (ascii ''240305'')) = (Some (ascii ''2024''), Some (ascii ''03''), Some (ascii ''05''))"
  by (simp add: parse_date_def clean_date_def eval_rx eval_chars date_rx)

lemma assemble_vec_ymd:
  "assemble_date cy lim (Some (ascii ''2024''), Some (ascii ''03''), Some (ascii ''05'')) = ascii ''2024/03/05''"
  by (simp add: assemble_date_def norm_year_def norm_md_def eval_num eval_chars split: option.splits)

lemma date_vec1: "fmt_date_uniform cy lim (ascii ''2024.3.5'') = ascii ''2024/03/05''"
  unfolding fmt_date_uniform_def parse_vec1
  by (simp add: assemble_date_def norm_year_def norm_md_def eval_num eval_chars py_strip_def split: option.splits)

lemma date_vec2: "fmt_date_uniform cy lim (ascii ''24-3-5'') = ascii ''2024/03/05''"
  unfolding fmt_date_uniform_def parse_vec2
  by (simp add: assemble_date_def norm_year_def norm_md_def eval_num eval_chars py_strip_def split: option.splits)

lemma date_vec3: "fmt_date_uniform cy lim (ascii ''03-05'') = fmt04 cy @ ascii ''/03/05''"
  unfolding fmt_date_uniform_def parse_vec3
  by (simp add: assemble_date_def norm_year_def norm_md_def py_int_def over_limit_short
      digits_value_def fmt02_def zero_pad_def digits10.simps replicate_numeral_unfold
      eval_chars py_strip_def)

lemma date_vec4: "fmt_date_uniform cy lim (ascii ''20240305'') = ascii ''2024/03/05''"
  unfolding fmt_date_uniform_def parse_vec4 assemble_vec_ymd
  by (simp add: eval_chars py_strip_def)

lemma date_vec5: "fmt_date_uniform cy lim (ascii ''240305'') = ascii ''2024/03/05''"
  unfolding fmt_date_uniform_def parse_vec5 assemble_vec_ymd
  by (simp add: eval_chars py_strip_def)

text \<open>
  Claim C9. Whatever the current year \<open>cy\<close> and the digit limit of the interpreter, the
  date normalizer maps the empty string to the current year followed by \<open>/00/00\<close>,
  \<open>2024.3.5\<close>, \<open>24-3-5\<close>, \<open>20240305\<close> and \<open>240305\<close> to \<open>2024/03/05\<close>, and
  \<open>03-05\<close> to the current year followed by \<open>/03/05\<close>. The current year is written as
  \<open>{cur_year:04d}\<close>.
\<close>

theorem fmt_date_uniform_vectors:
  "fmt_date_uniform cy lim [] = fmt04 cy @ ascii ''/00/00'' \<and>
   fmt_date_uniform cy lim (ascii ''2024.3.5'') = ascii ''2024/03/05'' \<and>
   fmt_date_uniform cy lim (ascii ''24-3-5'') = ascii ''2024/03/05'' \<and>
   fmt_date_uniform cy lim (ascii ''03-05'') = fmt04 cy @ ascii ''/03/05'' \<and>
   fmt_date_uniform cy lim (ascii ''20240305'') = ascii ''2024/03/05'' \<and>
   fmt_date_uniform cy lim (ascii ''240305'') = ascii ''2024/03/05''"
  using date_vec_empty date_vec1 date_vec2 date_vec3 date_vec4 date_vec5 by blast

section \<open>Classification\<close>

lemma starts_with_iff: "starts_with k s \<longleftrightarrow> (\<exists>q. s = k @ q)"
  by (induction k s rule: starts_with.induct) auto

lemma str_in_iff: "str_in k s \<longleftrightarrow> (\<exists>p q. s = p @ k @ q)"
proof (induction s)
  case Nil
  then show ?case by auto
next
  case (Cons c cs)
  show ?case
  proof
    assume "str_in k (c # cs)"
    then consider "starts_with k (c # cs)" | "str_in k cs" by auto
    then show "\<exists>p q. c # cs = p @ k @ q"
    proof cases
      case 1
      then obtain q where "c # cs = k @ q" using starts_with_iff by blast
      then have "c # cs = [] @ k @ q" by simp
      then show ?thesis by blast
    next
      case 2
      then obtain p q where "cs = p @ k @ q" using Cons.IH by blast
      then have "c # cs = (c # p) @ k @ q" by simp
      then show ?thesis by blast
    qed
  next
    assume "\<exists>p q. c # cs = p @ k @ q"
    then obtain p q where pq: "c # cs = p @ k @ q" by blast
    show "str_in k (c # cs)"
    proof (cases p)
      case Nil
      then have "starts_with k (c # cs)" using pq starts_with_iff by auto
      then show ?thesis by simp
    next
      case (Cons a p')
      then have "cs = p' @ k @ q" using pq by simp
      then have "str_in k cs" using Cons.IH by blast
      then show ?thesis by simp
    qed
  qed
qed

lemma remove_ws_marker: "remove_ws marker_spaced = marker_joined"
  by (simp add: remove_ws_def marker_spaced_def marker_joined_def is_space_def)

lemma verbatim_marker_subsumed:
  assumes "str_in marker_spaced t"
  shows "str_in marker_joined (remove_ws t)"
proof -
  from assms obtain p q where "t = p @ marker_spaced @ q" using str_in_iff by blast
  then have "remove_ws t = remove_ws p @ marker_joined @ remove_ws q"
    using remove_ws_marker by (simp add: remove_ws_def)
  then show ?thesis using str_in_iff by blast
qed

lemma marker_not_in_empty: "\<not> str_in marker_spaced [] \<and> \<not> str_in marker_joined (remove_ws [])"
  by (simp add: marker_spaced_def marker_joined_def remove_ws_def)

text \<open>
  Claim C6. A page is classified as a fixed-layout notice exactly when the marker phrase
  occurs in its text as it is, or occurs without its blank in the text from which all
  whitespace was removed. The first case is contained in the second. The function is a
  function of the text alone.
\<close>

theorem classify_image_type_iff:
  "(classify_image_type t \<longleftrightarrow> str_in marker_spaced t \<or> str_in marker_joined (remove_ws t))
   \<and> classify_image_type t = str_in marker_joined (remove_ws t)"
proof (cases "t = []")
  case True
  then show ?thesis using marker_not_in_empty by (simp add: classify_image_type_def)
next
  case False
  then show ?thesis using verbatim_marker_subsumed [of t]
    by (auto simp: classify_image_type_def Let_def)
qed

section \<open>Clicks\<close>

lemma handle_image_click_sig:
  "handle_image_click x y st = Inr st' \<Longrightarrow>
     last_click_sig st' = last_click_sig st \<and> current_field_index st' = current_field_index st"
  by (auto simp: handle_image_click_def split: if_splits list.splits prod.splits)

lemma deliver_click_same_sig:
  assumes "last_click_sig st = Some (cx, cy, current_field_index st, click_step st)"
  shows "deliver_click to_image w h (cx, cy) st = Inr st"
  using assms by (simp add: deliver_click_def)

lemma deliver_click_records_sig:
  assumes "deliver_click to_image w h (cx, cy) st = Inr st1"
  shows "last_click_sig st1 = Some (cx, cy, current_field_index st, click_step st)"
proof (cases "last_click_sig st = Some (cx, cy, current_field_index st, click_step st)")
  case True
  then show ?thesis using assms by (simp add: deliver_click_def)
next
  case False
  let ?st = "st\<lparr>last_click_sig := Some (cx, cy, current_field_index st, click_step st)\<rparr>"
  from False assms have
    "handle_image_click (to_image cx) (to_image cy) ?st = Inr st1 \<or> st1 = ?st"
    by (auto simp: deliver_click_def Let_def split: if_splits)
  then show ?thesis using handle_image_click_sig by fastforce
qed

text \<open>
  Claim C7. A click whose signature (point, field index, click step) is the one recorded
  last changes nothing. So when a click is delivered and leaves the field index and the
  click step as they were, delivering the same click again changes nothing.
\<close>

theorem click_redelivery_is_idle:
  "(last_click_sig st = Some (cx, cy, current_field_index st, click_step st)
      \<longrightarrow> deliver_click to_image w h (cx, cy) st = Inr st)
   \<and> (deliver_click to_image w h (px, py) s0 = Inr s1
        \<and> current_field_index s1 = current_field_index s0 \<and> click_step s1 = click_step s0
      \<longrightarrow> deliver_click to_image w h (px, py) s1 = Inr s1)"
proof (intro conjI impI)
  assume "last_click_sig st = Some (cx, cy, current_field_index st, click_step st)"
  then show "deliver_click to_image w h (cx, cy) st = Inr st"
    by (rule deliver_click_same_sig)
next
  assume a: "deliver_click to_image w h (px, py) s0 = Inr s1
        \<and> current_field_index s1 = current_field_index s0 \<and> click_step s1 = click_step s0"
  then have "last_click_sig s1 = Some (px, py, current_field_index s1, click_step s1)"
    using deliver_click_records_sig [of to_image w h px py s0 s1] by simp
  then show "deliver_click to_image w h (px, py) s1 = Inr s1"
    by (rule deliver_click_same_sig)
qed

theorem click_redelivery_is_idle_witness:
  "last_click_sig second_taken
     = Some (200, 100, current_field_index second_taken, click_step second_taken)
   \<and> deliver_click (\<lambda>c. c) 800 600 (200, 100) second_taken = Inr second_taken
   \<and> deliver_click (\<lambda>c. c) 800 600 (200, 100) awaiting_second = Inr second_taken
   \<and> current_field_index second_taken = current_field_index awaiting_second
   \<and> click_step second_taken = click_step awaiting_second"
  using click_redelivery_is_idle [of second_taken 200 100 "\<lambda>c. c" 800 600 200 100
      awaiting_second second_taken]
  by (simp add: second_taken_def awaiting_second_def deliver_click_def handle_image_click_def)

section \<open>The two-click protocol\<close>

lemma two_clicks_commit_example:
  "handle_image_click 50 50 init_session
     = Inr (init_session\<lparr>temp_coords := [(50, 50)], click_step := 1\<rparr>)
   \<and> handle_image_click 200 100 (init_session\<lparr>temp_coords := [(50, 50)], click_step := 1\<rparr>)
     = Inr (init_session\<lparr>temp_coords := [(50, 50), (200, 100)], click_step := 1\<rparr>)
   \<and> coordinates (apply_coordinates PlateNumber
         (init_session\<lparr>temp_coords := [(50, 50), (200, 100)], click_step := 1\<rparr>))
     = [(PlateNumber, [50, 50, 200, 100])]"
  by (simp add: handle_image_click_def init_session_def apply_coordinates_def)

lemma click_order_irrelevant:
  assumes "click_step st = 0"
    and "handle_image_click x1 y1 st = Inr sa" and "handle_image_click x2 y2 sa = Inr sa'"
    and "handle_image_click x2 y2 st = Inr sb" and "handle_image_click x1 y1 sb = Inr sb'"
  shows "sa' = sb'"
  using assms by (auto simp: handle_image_click_def min.commute max.commute)

text \<open>
  Claim C2. A second click with the same x as the first is not rejected: the pair is kept
  as the selection, and applying it stores the rectangle \<open>[50, 50, 50, 100]\<close> for the
  field and moves on to the next field. The manual entry refuses the same rectangle.
\<close>

theorem degenerate_click_pair_committed:
  "handle_image_click 50 100 awaiting_second = Inr degenerate_pair
   \<and> apply_coordinates PlateNumber degenerate_pair = degenerate_committed
   \<and> apply_manual 50 50 50 100 PlateNumber degenerate_pair = degenerate_pair"
  by (simp add: handle_image_click_def apply_coordinates_def apply_manual_def
      awaiting_second_def degenerate_pair_def degenerate_committed_def)

section \<open>Region-based extraction: one failure stays with its field\<close>

lemma dict_set_fresh: "k \<notin> fst ` set d \<Longrightarrow> dict_set k v d = d @ [(k, v)]"
  by (induction d) auto

lemma fold_dict_set:
  assumes "distinct (map fst items)" and "fst ` set acc \<inter> fst ` set items = {}"
  shows "foldl (\<lambda>res (k, c). dict_set k (g k c) res) acc items
           = acc @ map (\<lambda>(k, c). (k, g k c)) items"
  using assms
proof (induction items arbitrary: acc)
  case Nil
  then show ?case by simp
next
  case (Cons e items)
  obtain k c where e: "e = (k, c)" by (cases e)
  have fresh: "k \<notin> fst ` set acc" using Cons.prems(2) e by auto
  have d: "distinct (map fst items)" and k: "k \<notin> fst ` set items"
    using Cons.prems(1) e by auto
  have "fst ` set (acc @ [(k, g k c)]) \<inter> fst ` set items = {}"
    using Cons.prems(2) k by auto
  then have "foldl (\<lambda>res (k, c). dict_set k (g k c) res) (acc @ [(k, g k c)]) items
               = (acc @ [(k, g k c)]) @ map (\<lambda>(k, c). (k, g k c)) items"
    using Cons.IH d by blast
  then show ?case using e fresh by (simp add: dict_set_fresh)
qed

lemma process_template_based_ocr_map:
  assumes "distinct (map fst items)"
  shows "process_template_based_ocr cy lim ocr items
           = map (\<lambda>(f, c). (f, extract_text_from_region cy lim ocr f c)) items"
  using fold_dict_set [of items "[]" "extract_text_from_region cy lim ocr"] assms
  by (simp add: process_template_based_ocr_def)

lemma map_of_mapped:
  assumes "distinct (map fst items)" and "(f, c) \<in> set items"
  shows "map_of (map (\<lambda>(f, c). (f, g f c)) items) f = Some (g f c)"
  using assms by (induction items) (auto simp: rev_image_eqI)

lemma extract_failure_empty:
  "ocr (x1, y1, x2, y2) = Inl e \<Longrightarrow> extract_text_from_region cy lim ocr f [x1, y1, x2, y2] = []"
  by (simp add: extract_text_from_region_def)


lemma extract_depends_on_own_rectangle:
  assumes "\<forall>a b c d. coords = [a, b, c, d] \<longrightarrow> ocr' (a, b, c, d) = ocr (a, b, c, d)"
  shows "extract_text_from_region cy lim ocr' g coords = extract_text_from_region cy lim ocr g coords"
  using assms by (auto simp: extract_text_from_region_def split: list.splits)

text \<open>
  Claim C8. When the OCR of the rectangle of one field of the template fails, the result
  of that field is the empty string; every field of the template still has a result, which
  is what the extraction of its own rectangle gives; and the result of a field with another
  rectangle is the same as if the failing call had answered.
\<close>

theorem region_failure_is_isolated:
  assumes "distinct (map fst items)"
    and "(f, [x1, y1, x2, y2]) \<in> set items"
    and "ocr (x1, y1, x2, y2) = Inl e"
  shows "map fst (process_template_based_ocr cy lim ocr items) = map fst items
    \<and> map_of (process_template_based_ocr cy lim ocr items) f = Some []
    \<and> (\<forall>(g, c) \<in> set items.
          map_of (process_template_based_ocr cy lim ocr items) g
            = Some (extract_text_from_region cy lim ocr g c))
    \<and> (\<forall>(g, c) \<in> set items. c \<noteq> [x1, y1, x2, y2] \<longrightarrow>
          map_of (process_template_based_ocr cy lim (ocr((x1, y1, x2, y2) := answer)) items) g
            = map_of (process_template_based_ocr cy lim ocr items) g)"
proof -
  let ?res = "process_template_based_ocr cy lim ocr items"
  have res: "\<And>p. process_template_based_ocr cy lim p items
               = map (\<lambda>(f, c). (f, extract_text_from_region cy lim p f c)) items"
    using assms(1) by (rule process_template_based_ocr_map)
  have keys: "map fst ?res = map fst items"
    unfolding res by (induction items) auto
  have own: "\<And>p g c. (g, c) \<in> set items \<Longrightarrow>
      map_of (process_template_based_ocr cy lim p items) g
        = Some (extract_text_from_region cy lim p g c)"
    unfolding res using assms(1) by (rule map_of_mapped)
  have failed: "map_of ?res f = Some []"
    using own [OF assms(2)] extract_failure_empty [of ocr x1 y1 x2 y2 e cy lim f] assms(3) by simp
  have others: "\<And>g c. (g, c) \<in> set items \<Longrightarrow> c \<noteq> [x1, y1, x2, y2] \<Longrightarrow>
      map_of (process_template_based_ocr cy lim (ocr((x1, y1, x2, y2) := answer)) items) g
        = map_of ?res g"
  proof -
    fix g c
    assume gc: "(g, c) \<in> set items" and ne: "c \<noteq> [x1, y1, x2, y2]"
    have "extract_text_from_region cy lim (ocr((x1, y1, x2, y2) := answer)) g c
            = extract_text_from_region cy lim ocr g c"
      using ne by (intro extract_depends_on_own_rectangle) auto
    then show "map_of (process_template_based_ocr cy lim (ocr((x1, y1, x2, y2) := answer)) items) g
        = map_of ?res g"
      using own [OF gc] by simp
  qed
  show ?thesis using keys failed own others by blast
qed

lemma failing_provider_fine:
  "extract_text_from_region 2026 (Some 4300) failing_provider Fine [0, 20, 10, 30]
     = ascii ''50,000'' @ [ch_won]"
  by (simp add: extract_text_from_region_def failing_provider_def post_process_text_def
      rx_num_commas_def rx_ws1_def eval_num eval_rx eval_chars)

theorem region_failure_is_isolated_witness:
  "distinct (map fst two_field_template)
   \<and> (PlateNumber, [0, 0, 10, 10]) \<in> set two_field_template
   \<and> failing_provider (0, 0, 10, 10) = Inl ProviderError
   \<and> map_of (process_template_based_ocr 2026 (Some 4300) failing_provider two_field_template)
        PlateNumber = Some []
   \<and> map_of (process_template_based_ocr 2026 (Some 4300) failing_provider two_field_template)
        Fine = Some (ascii ''50,000'' @ [ch_won])"
proof -
  have d: "distinct (map fst two_field_template)"
    and m: "(PlateNumber, [0, 0, 10, 10]) \<in> set two_field_template"
    and e: "failing_provider (0, 0, 10, 10) = Inl ProviderError"
    and m2: "(Fine, [0, 20, 10, 30]) \<in> set two_field_template"
    by (simp_all add: two_field_template_def failing_provider_def)
  from region_failure_is_isolated [of two_field_template PlateNumber 0 0 10 10
      failing_provider ProviderError 2026 "Some 4300" "Inr []"] d m e m2
  have "map_of (process_template_based_ocr 2026 (Some 4300) failing_provider two_field_template)
          PlateNumber = Some []"
    and "map_of (process_template_based_ocr 2026 (Some 4300) failing_provider two_field_template)
          Fine = Some (extract_text_from_region 2026 (Some 4300) failing_provider Fine [0, 20, 10, 30])"
    by auto
  then show ?thesis using d m e failing_provider_fine by simp
qed

section \<open>Soundness of the matcher\<close>

lemma reaches_refl: "reaches st [] st"
  by (simp add: reaches_def)

lemma reaches_trans: "reaches a u b \<Longrightarrow> reaches b v c \<Longrightarrow> reaches a (u @ v) c"
  by (simp add: reaches_def)

lemma reaches_consumed: "reaches st w st' \<Longrightarrow> consumed st st' = w"
  by (simp add: reaches_def consumed_def)

lemma reaches_grps_update: "reaches st w st' \<Longrightarrow> reaches st w (st'\<lparr>grps := g\<rparr>)"
  by (simp add: reaches_def)

lemma step_char_reaches:
  "st' \<in> set (step_char st) \<Longrightarrow> \<exists>c. post st = c # post st' \<and> reaches st [c] st' \<and> grps st' = grps st"
  by (auto simp: step_char_def reaches_def split: list.splits)

lemma reps_sound:
  assumes body: "\<And>st st'. st' \<in> set (f st) \<Longrightarrow> \<exists>w. reaches st w st' \<and> Q w"
  shows "st' \<in> set (reps f h lo st) \<Longrightarrow>
         \<exists>ws. reaches st (concat ws) st' \<and> (\<forall>x \<in> set ws. Q x) \<and> lo \<le> length ws \<and> length ws \<le> h"
proof (induction h arbitrary: lo st)
  case 0
  then have "lo = 0" and "st' = st" by (auto split: if_splits)
  then have "reaches st (concat []) st'" by (simp add: reaches_refl)
  then show ?case using \<open>lo = 0\<close> by fastforce
next
  case (Suc h)
  from Suc.prems consider
    (more) st1 where "st1 \<in> set (f st)" "st' \<in> set (reps f h (lo - 1) st1)"
    | (stop) "lo = 0" "st' = st"
    by (auto split: if_splits)
  then show ?case
  proof cases
    case more
    obtain w where w: "reaches st w st1" "Q w" using body more(1) by blast
    obtain ws where ws: "reaches st1 (concat ws) st'" "\<forall>x \<in> set ws. Q x"
        "lo - 1 \<le> length ws" "length ws \<le> h"
      using Suc.IH more(2) by blast
    have "reaches st (concat (w # ws)) st'" using w(1) ws(1) reaches_trans by simp
    moreover have "\<forall>x \<in> set (w # ws). Q x" using w(2) ws(2) by simp
    moreover have "lo \<le> length (w # ws)" "length (w # ws) \<le> Suc h" using ws(3,4) by auto
    ultimately show ?thesis by blast
  next
    case stop
    then have "reaches st (concat []) st'" by (simp add: reaches_refl)
    then show ?thesis using stop by fastforce
  qed
qed

lemma rx_match_sound:
  "st' \<in> set (rx_match r st) \<Longrightarrow> \<exists>w. reaches st w st' \<and> shape r w"
proof (induction r arbitrary: st st')
  case (Cls cs)
  then show ?case
    by (cases "post st") (auto simp: step_char_def reaches_def split: if_splits)
next
  case (NCls cs)
  then show ?case
    by (cases "post st") (auto simp: step_char_def reaches_def split: if_splits)
next
  case Eps
  then show ?case by (simp add: reaches_refl)
next
  case (Seq a b)
  from Seq.prems obtain st1 where s1: "st1 \<in> set (rx_match a st)" "st' \<in> set (rx_match b st1)"
    by auto
  obtain u where u: "reaches st u st1" "shape a u" using Seq.IH(1) s1(1) by blast
  obtain v where v: "reaches st1 v st'" "shape b v" using Seq.IH(2) s1(2) by blast
  have "reaches st (u @ v) st'" using u(1) v(1) by (rule reaches_trans)
  then show ?case using u(2) v(2) by auto
next
  case (Alt a b)
  from Alt.prems have "st' \<in> set (rx_match a st) \<or> st' \<in> set (rx_match b st)" by simp
  then show ?case
  proof
    assume "st' \<in> set (rx_match a st)"
    then obtain w where "reaches st w st'" "shape a w" using Alt.IH(1) by blast
    then show ?thesis by auto
  next
    assume "st' \<in> set (rx_match b st)"
    then obtain w where "reaches st w st'" "shape b w" using Alt.IH(2) by blast
    then show ?thesis by auto
  qed
next
  case (Rep r lo hi)
  let ?h = "case hi of Some h \<Rightarrow> h | None \<Rightarrow> length (post st)"
  have "st' \<in> set (reps (rx_match r) ?h lo st)" using Rep.prems by simp
  then obtain ws where ws: "reaches st (concat ws) st'" "\<forall>x \<in> set ws. shape r x"
      "lo \<le> length ws" "length ws \<le> ?h"
    using reps_sound [of "rx_match r" "shape r" st' ?h lo st] Rep.IH by blast
  have "case hi of Some h \<Rightarrow> length ws \<le> h | None \<Rightarrow> True"
    using ws(4) by (cases hi) auto
  then show ?case using ws by auto
next
  case (Grp k r)
  from Grp.prems obtain s1 where s1: "s1 \<in> set (rx_match r st)"
      "st' = s1\<lparr>grps := (k, consumed st s1) # grps s1\<rparr>"
    by auto
  obtain w where w: "reaches st w s1" "shape r w" using Grp.IH s1(1) by blast
  have "reaches st w st'" unfolding s1(2) using w(1) by (rule reaches_grps_update)
  then show ?case using w(2) by auto
next
  case (NotBehind cs)
  then show ?case by (auto simp: reaches_refl split: list.splits if_splits)
next
  case (NotAhead cs)
  then show ?case by (auto simp: reaches_refl split: list.splits if_splits)
qed

lemma reps_grps_ok:
  assumes body: "\<And>st st'. grps_ok P st \<Longrightarrow> st' \<in> set (f st) \<Longrightarrow> grps_ok P st'"
  shows "grps_ok P st \<Longrightarrow> st' \<in> set (reps f h lo st) \<Longrightarrow> grps_ok P st'"
proof (induction h arbitrary: lo st)
  case 0
  then show ?case by (simp split: if_splits)
next
  case (Suc h)
  from Suc.prems(2) have
    "(\<exists>st1. st1 \<in> set (f st) \<and> st' \<in> set (reps f h (lo - 1) st1)) \<or> st' = st"
    by (auto split: if_splits)
  then show ?case
  proof
    assume "\<exists>st1. st1 \<in> set (f st) \<and> st' \<in> set (reps f h (lo - 1) st1)"
    then obtain st1 where m: "st1 \<in> set (f st)" "st' \<in> set (reps f h (lo - 1) st1)" by blast
    have "grps_ok P st1" using Suc.prems(1) m(1) by (rule body)
    then show ?thesis using m(2) by (rule Suc.IH)
  next
    assume "st' = st"
    then show ?thesis using Suc.prems(1) by simp
  qed
qed

lemma rx_match_grps_ok:
  "caps_ok P r \<Longrightarrow> grps_ok P st \<Longrightarrow> st' \<in> set (rx_match r st) \<Longrightarrow> grps_ok P st'"
proof (induction r arbitrary: st st')
  case (Cls cs)
  then show ?case by (cases "post st") (auto simp: step_char_def grps_ok_def split: if_splits)
next
  case (NCls cs)
  then show ?case by (cases "post st") (auto simp: step_char_def grps_ok_def split: if_splits)
next
  case Eps
  then show ?case by simp
next
  case (Seq a b)
  from Seq.prems(3) obtain st1 where s1: "st1 \<in> set (rx_match a st)" "st' \<in> set (rx_match b st1)"
    by auto
  have ca: "caps_ok P a" and cb: "caps_ok P b" using Seq.prems(1) by simp_all
  have "grps_ok P st1" using ca Seq.prems(2) s1(1) by (rule Seq.IH(1))
  with cb show ?case using s1(2) by (rule Seq.IH(2))
next
  case (Alt a b)
  have ca: "caps_ok P a" and cb: "caps_ok P b" using Alt.prems(1) by simp_all
  from Alt.prems(3) have "st' \<in> set (rx_match a st) \<or> st' \<in> set (rx_match b st)" by simp
  then show ?case
  proof
    assume "st' \<in> set (rx_match a st)"
    with ca Alt.prems(2) show ?thesis by (rule Alt.IH(1))
  next
    assume "st' \<in> set (rx_match b st)"
    with cb Alt.prems(2) show ?thesis by (rule Alt.IH(2))
  qed
next
  case (Rep r lo hi)
  have c: "caps_ok P r" using Rep.prems(1) by simp
  have body: "\<And>s s'. grps_ok P s \<Longrightarrow> s' \<in> set (rx_match r s) \<Longrightarrow> grps_ok P s'"
    using c by (rule Rep.IH)
  have "st' \<in> set (reps (rx_match r) (case hi of Some h \<Rightarrow> h | None \<Rightarrow> length (post st)) lo st)"
    using Rep.prems(3) by simp
  then show ?case using reps_grps_ok [of P "rx_match r" st st'] body Rep.prems(2) by blast
next
  case (Grp k r)
  from Grp.prems(3) obtain s1 where s1: "s1 \<in> set (rx_match r st)"
      "st' = s1\<lparr>grps := (k, consumed st s1) # grps s1\<rparr>"
    by auto
  have c: "caps_ok P r" and pk: "\<And>w. shape r w \<Longrightarrow> P k w" using Grp.prems(1) by simp_all
  have ok1: "grps_ok P s1" using c Grp.prems(2) s1(1) by (rule Grp.IH)
  obtain w where w: "reaches st w s1" "shape r w" using rx_match_sound s1(1) by blast
  have "consumed st s1 = w" using w(1) by (rule reaches_consumed)
  then have "P k (consumed st s1)" using pk w(2) by simp
  then show ?case using ok1 unfolding s1(2) by (simp add: grps_ok_def)
next
  case (NotBehind cs)
  then show ?case by (cases "pre st") (auto split: if_splits)
next
  case (NotAhead cs)
  then show ?case by (cases "post st") (auto split: if_splits)
qed

lemma match_at_grps_ok:
  assumes "caps_ok P r" and "\<And>w. P 0 w" and "match_at r p s = Some m"
  shows "grps_ok P m"
proof -
  have "m \<in> set (rx_match (Grp 0 r) \<lparr>pre = p, post = s, grps = []\<rparr>)"
    using assms(3) by (auto simp: match_at_def split: list.splits)
  moreover have "caps_ok P (Grp 0 r)" using assms(1,2) by simp
  moreover have "grps_ok P \<lparr>pre = p, post = s, grps = []\<rparr>" by (simp add: grps_ok_def)
  ultimately show ?thesis using rx_match_grps_ok by blast
qed

lemma search_from_grps_ok:
  assumes "caps_ok P r" and "\<And>w. P 0 w"
  shows "search_from r p s = Some m \<Longrightarrow> grps_ok P m"
proof (induction s arbitrary: p)
  case Nil
  then have "match_at r p [] = Some m" by simp
  with assms show ?case by (rule match_at_grps_ok)
next
  case (Cons c cs)
  show ?case
  proof (cases "match_at r p (c # cs)")
    case None
    then have "search_from r (c # p) cs = Some m" using Cons.prems by simp
    then show ?thesis by (rule Cons.IH)
  next
    case (Some m')
    then have "match_at r p (c # cs) = Some m" using Cons.prems by simp
    with assms show ?thesis by (rule match_at_grps_ok)
  qed
qed

lemma re_search_group:
  assumes "caps_ok P r" and "\<And>w. P 0 w"
    and "re_search r s = Some m" and "group m k = Some t"
  shows "P k t"
proof -
  have "search_from r [] s = Some m" using assms(3) by (simp add: re_search_def)
  with assms(1,2) have "grps_ok P m" by (rule search_from_grps_ok)
  moreover have "(k, t) \<in> set (grps m)" using assms(4) by (simp add: group_def map_of_SomeD)
  ultimately show ?thesis by (auto simp: grps_ok_def)
qed

lemma shape_digit_run:
  assumes "shape (Rep rx_digit lo hi) w"
  shows "list_all is_digit w \<and> lo \<le> length w \<and> (case hi of Some h \<Rightarrow> length w \<le> h | None \<Rightarrow> True)"
proof -
  from assms obtain ws where ws: "w = concat ws" "\<forall>x \<in> set ws. \<exists>c. x = [c] \<and> is_digit c"
      "lo \<le> length ws" "case hi of Some h \<Rightarrow> length ws \<le> h | None \<Rightarrow> True"
    by (auto simp: rx_digit_def in_class_def)
  have "length (concat ws) = length ws \<and> list_all is_digit (concat ws)" using ws(2)
    by (induction ws) auto
  then show ?thesis using ws by (cases hi) simp_all
qed

section \<open>The keyword-based vehicle number is four digits\<close>


lemma rx_last4_caps: "caps_ok (\<lambda>k w. k = 0 \<or> four_digits w) rx_last4"
proof -
  have "\<forall>w. shape (Rep rx_digit 4 (Some 4)) w \<longrightarrow> four_digits w"
    using shape_digit_run [of 4 "Some 4"] by (fastforce simp: four_digits_def)
  moreover have "caps_ok (\<lambda>k w. k = 0 \<or> four_digits w) rx_digit"
    by (simp add: rx_digit_def)
  ultimately show ?thesis
    by (simp add: rx_last4_def seqs_def del: shape.simps)
qed

lemma find4_shape:
  assumes "find4 s = Some r"
  shows "r = [] \<or> four_digits r"
proof -
  from assms obtain m where m: "re_search rx_last4 (remove_ws s) = Some m" "r = group_text m 1"
    by (auto simp: find4_def split: option.splits)
  show ?thesis
  proof (cases "group m 1")
    case None
    then show ?thesis using m(2) by (simp add: group_text_def)
  next
    case (Some t)
    have "(1::nat) = 0 \<or> four_digits t"
      using rx_last4_caps _ m(1) Some by (rule re_search_group) simp
    then show ?thesis using m(2) Some by (simp add: group_text_def)
  qed
qed

lemma plate_by_keyword_shape: "plate_by_keyword ls = Some r \<Longrightarrow> r = [] \<or> four_digits r"
  by (induction ls) (auto split: if_splits option.splits dest: find4_shape)

lemma plate_by_line_shape: "plate_by_line ls = Some r \<Longrightarrow> r = [] \<or> four_digits r"
  by (induction ls) (auto split: if_splits option.splits dest: find4_shape)

lemma plate_by_roi_shape:
  "plate_by_roi cy lim ocr tmpl has_image = Some r \<Longrightarrow> r = [] \<or> four_digits r"
  by (auto simp: plate_by_roi_def split: option.splits if_splits dest: find4_shape)

lemma extract_vehicle_number_shape:
  "extract_vehicle_number_from_text cy lim ocr tmpl has_image t = []
   \<or> four_digits (extract_vehicle_number_from_text cy lim ocr tmpl has_image t)"
  using plate_by_roi_shape [of cy lim ocr tmpl has_image]
        plate_by_keyword_shape [of "if t = [] then [] else split_lines t"]
        plate_by_line_shape [of "if t = [] then [] else split_lines t"]
        find4_shape [of t]
  by (auto simp: extract_vehicle_number_from_text_def Let_def split: option.splits)

lemma plate_line_example:
  "extract_vehicle_number_from_text cy lim ocr [] has_image plate_line = ascii ''3456''"
  by (simp add: extract_vehicle_number_from_text_def plate_by_roi_def plate_line_def
      vehicle_keywords_def any_in_def with_next_def find4_def remove_ws_def rx_last4_def
      rx_digit_def eval_rx eval_chars)

text \<open>
  Claim C10. Whatever the text, the template, the image and the OCR answers, the
  keyword-based extraction of the vehicle number gives the empty string or exactly four
  decimal digits. From a line that holds the full plate \<open>12X3456\<close> (\<open>X\<close> a Hangul
  syllable) after the keyword it gives \<open>3456\<close>.
\<close>

theorem keyword_plate_is_four_digits:
  "(extract_vehicle_number_from_text cy lim ocr tmpl has_image t = []
     \<or> four_digits (extract_vehicle_number_from_text cy lim ocr tmpl has_image t))
   \<and> extract_vehicle_number_from_text cy lim ocr [] has_image plate_line = ascii ''3456''"
  using extract_vehicle_number_shape plate_line_example by blast

section \<open>The keyword-based fine is inside the range\<close>


















lemmas fine_rx = rx_hyphen_code_def rx_number_def rx_amount_won_def rx_amount_def
  rx_digit_def rx_ws0_def

lemmas fine_defs = extract_fine_amount_from_text_def strip_hyphen_codes_def
  find_amount_after_keyword_def amount_anywhere_def any_number_def amount_of_def
  with_next_def kw_pay_def kw_pay_in_term_def kw_fine_def kw_reduced_def kw_surcharge_def






section \<open>Digits and numbers\<close>

lemma digit_val_le9: "digit_val c \<le> 9"
proof (cases "filter (\<lambda>z. z \<le> c \<and> c < z + 10) nd_zeros")
  case Nil
  then show ?thesis by (simp add: digit_val_def)
next
  case (Cons z zs)
  then have "z \<in> set (filter (\<lambda>z. z \<le> c \<and> c < z + 10) nd_zeros)" by simp
  then have "z \<le> c \<and> c < z + 10" by simp
  then have "c - z \<le> 9" by arith
  then show ?thesis using Cons by (simp add: digit_val_def)
qed

lemma foldl_digits_bound:
  "foldl (\<lambda>a c. 10 * a + digit_val c) a s < (a + 1) * 10 ^ length s"
proof (induction s arbitrary: a)
  case Nil
  then show ?case by simp
next
  case (Cons c s)
  have "10 * a + digit_val c + 1 \<le> (a + 1) * 10" using digit_val_le9 [of c] by simp
  then have le: "(10 * a + digit_val c + 1) * 10 ^ length s \<le> (a + 1) * 10 * 10 ^ length s"
    by (rule mult_le_mono1)
  have "foldl (\<lambda>a c. 10 * a + digit_val c) (10 * a + digit_val c) s
          < (10 * a + digit_val c + 1) * 10 ^ length s"
    by (rule Cons.IH)
  also note le
  also have "(a + 1) * 10 * 10 ^ length s = (a + 1) * 10 ^ length (c # s)"
    by (simp add: algebra_simps)
  finally show ?case by simp
qed

lemma digits_value_bound: "digits_value s < 10 ^ length s"
  using foldl_digits_bound [of 0 s] by (simp add: digits_value_def)

lemma digits_value_snoc: "digits_value (s @ [c]) = 10 * digits_value s + digit_val c"
  by (simp add: digits_value_def)

lemma digit_val_ascii: "d < 10 \<Longrightarrow> digit_val (48 + d) = d"
  by (simp add: digit_val_low)

lemma is_digit_ascii: "ascii_digit c \<Longrightarrow> is_digit c"
  by (simp add: ascii_digit_def is_digit_low)

lemma digits10_value: "digits_value (digits10 n) = n"
proof (induction n rule: digits10.induct)
  case (1 n)
  show ?case
  proof (cases "n < 10")
    case True
    then have "digits10 n = [48 + n]" by (subst digits10.simps) simp
    then show ?thesis using True by (simp add: digits_value_def digit_val_ascii)
  next
    case False
    then have "digits_value (digits10 (n div 10)) = n div 10" using 1 by simp
    moreover have "digits10 n = digits10 (n div 10) @ [48 + n mod 10]"
      using False by (subst digits10.simps) simp
    ultimately show ?thesis by (simp add: digits_value_snoc digit_val_ascii)
  qed
qed

lemma digits10_ascii: "list_all ascii_digit (digits10 n)"
proof (induction n rule: digits10.induct)
  case (1 n)
  show ?case
  proof (cases "n < 10")
    case True
    then have "digits10 n = [48 + n]" by (subst digits10.simps) simp
    then show ?thesis using True by (simp add: ascii_digit_def)
  next
    case False
    then have "list_all ascii_digit (digits10 (n div 10))" using 1 by simp
    moreover have "digits10 n = digits10 (n div 10) @ [48 + n mod 10]"
      using False by (subst digits10.simps) simp
    moreover have "ascii_digit (48 + n mod 10)" by (simp add: ascii_digit_def)
    ultimately show ?thesis by simp
  qed
qed

lemma digits10_length: "0 < k \<Longrightarrow> n < 10 ^ k \<Longrightarrow> length (digits10 n) \<le> k"
proof (induction n arbitrary: k rule: digits10.induct)
  case (1 n)
  show ?case
  proof (cases "n < 10")
    case True
    then have "digits10 n = [48 + n]" by (subst digits10.simps) simp
    then show ?thesis using 1(2) by simp
  next
    case False
    obtain j where j1: "k = Suc j" using 1(2) by (cases k) auto
    have j2: "0 < j"
    proof (rule ccontr)
      assume "\<not> 0 < j"
      then have "n < 10" using 1(3) j1 by simp
      then show False using False by simp
    qed
    note j = j1 j2
    have "n div 10 < 10 ^ j" using 1(3) j by (simp add: less_mult_imp_div_less mult.commute)
    then have "length (digits10 (n div 10)) \<le> j" using 1(1) False j(2) by simp
    moreover have "digits10 n = digits10 (n div 10) @ [48 + n mod 10]"
      using False by (subst digits10.simps) simp
    ultimately show ?thesis using j by simp
  qed
qed

lemma digits10_nonempty: "digits10 n \<noteq> []"
  by (subst digits10.simps) simp

lemma zero_pad_value: "digits_value (zero_pad w s) = digits_value s"
proof -
  have "foldl (\<lambda>a c. 10 * a + digit_val c) 0 (replicate k 48) = 0" for k
    by (induction k) (simp_all add: digit_val_low)
  then show ?thesis by (simp add: zero_pad_def digits_value_def)
qed

lemma zero_pad_ascii: "list_all ascii_digit s \<Longrightarrow> list_all ascii_digit (zero_pad w s)"
  by (auto simp: zero_pad_def ascii_digit_def list_all_iff)

lemma zero_pad_length: "length s \<le> w \<Longrightarrow> length (zero_pad w s) = w"
  by (simp add: zero_pad_def)

lemma fmt04_props:
  assumes "n \<le> 9999"
  shows "length (fmt04 n) = 4" and "list_all ascii_digit (fmt04 n)"
proof -
  have "n < 10 ^ 4" using assms by simp
  then have "length (digits10 n) \<le> 4" using digits10_length [of 4 n] by simp
  then show "length (fmt04 n) = 4" by (simp add: fmt04_def zero_pad_length)
  show "list_all ascii_digit (fmt04 n)" by (simp add: fmt04_def zero_pad_ascii digits10_ascii)
qed

lemma fmt02_props:
  assumes "n \<le> 99"
  shows "length (fmt02 n) = 2" and "list_all ascii_digit (fmt02 n)"
    and "digits_value (fmt02 n) = n"
proof -
  have "n < 10 ^ 2" using assms by simp
  then have "length (digits10 n) \<le> 2" using digits10_length [of 2 n] by simp
  then show "length (fmt02 n) = 2" by (simp add: fmt02_def zero_pad_length)
  show "list_all ascii_digit (fmt02 n)" by (simp add: fmt02_def zero_pad_ascii digits10_ascii)
  show "digits_value (fmt02 n) = n" by (simp add: fmt02_def zero_pad_value digits10_value)
qed

lemma fmt02_value: "digits_value (fmt02 n) = n"
  by (simp add: fmt02_def zero_pad_value digits10_value)

lemma py_int_value: "py_int lim s = Some n \<Longrightarrow> n = digits_value s"
  by (auto simp: py_int_def split: if_splits)

lemma py_int_short: "py_int lim s = Some n \<Longrightarrow> length s \<le> k \<Longrightarrow> n < 10 ^ k"
proof -
  assume a: "py_int lim s = Some n" and b: "length s \<le> k"
  have "n < 10 ^ length s" using py_int_value [OF a] digits_value_bound [of s] by simp
  also have "(10::nat) ^ length s \<le> 10 ^ k" using b by (simp add: power_increasing)
  finally show ?thesis .
qed

section \<open>The date normalizer gives a canonical date\<close>

lemma digit_rep_len: "shape (Rep rx_digit lo (Some h)) w \<Longrightarrow> length w \<le> h"
  using shape_digit_run [of lo "Some h" w] by simp

lemma rx_digit_caps: "caps_ok P rx_digit" and rx_ws0_caps: "caps_ok P rx_ws0"
  and rx_sep_caps: "caps_ok P rx_sep"
  by (simp_all add: rx_digit_def rx_ws0_def rx_sep_def)

lemma short_group:
  assumes "h \<le> b"
  shows "\<forall>w. shape (Rep rx_digit lo (Some h)) w \<longrightarrow> length w \<le> b"
  using assms digit_rep_len [of lo h] by fastforce

lemma caps_ymd8: "caps_ok (\<lambda>k w. k = 0 \<or> length w \<le> 4) rx_ymd8"
  using short_group [of 4 4 4] short_group [of 2 4 2] short_group [of 2 4 2]
  by (simp add: rx_ymd8_def seqs_def rx_digit_caps del: shape.simps)

lemma caps_ymd6: "caps_ok (\<lambda>k w. k = 0 \<or> length w \<le> 2) rx_ymd6"
  using short_group [of 2 2 2] short_group [of 2 2 2] short_group [of 2 2 2]
  by (simp add: rx_ymd6_def seqs_def rx_digit_caps del: shape.simps)

lemma caps_sep_ymd: "caps_ok (\<lambda>k w. k = 0 \<or> length w \<le> 4) rx_sep_ymd"
  using short_group [of 4 4 2] short_group [of 2 4 1] short_group [of 2 4 1]
  by (simp add: rx_sep_ymd_def seqs_def rx_digit_caps rx_ws0_caps rx_sep_caps del: shape.simps)

lemma caps_year_k: "caps_ok (\<lambda>k w. k = 0 \<or> length w \<le> 4) rx_year_k"
  using short_group [of 4 4 2]
  by (simp add: rx_year_k_def seqs_def rx_digit_caps rx_ws0_caps del: shape.simps)

lemma group_one_short:
  assumes "caps_ok (\<lambda>k w. k = 0 \<or> length w \<le> b) r"
    and "re_search r s = Some m" and "group m 1 = Some t"
  shows "length t \<le> b"
proof -
  have "(1::nat) = 0 \<or> length t \<le> b"
    using assms(1) _ assms(2,3) by (rule re_search_group) simp
  then show ?thesis by simp
qed

lemma loose_split_year: "loose_split ns = (Some y, M, D) \<Longrightarrow> length y = 4"
  by (cases ns rule: loose_split.cases) (auto simp: md_of_def split: if_splits)

lemma parse_date_year_short:
  assumes "parse_date c = (Some y, M, D)"
  shows "length y \<le> 4"
proof (cases "re_search rx_ymd8 c")
  case (Some m)
  then have "group m 1 = Some y" using assms by (simp add: parse_date_def)
  with caps_ymd8 Some show ?thesis by (rule group_one_short)
next
  case n8: None
  show ?thesis
  proof (cases "re_search rx_ymd6 c")
    case (Some m)
    then obtain t where t: "group m 1 = Some t" "y = ascii ''20'' @ t"
      using assms n8 by (auto simp: parse_date_def)
    have "length t \<le> 2" using caps_ymd6 Some t(1) by (rule group_one_short)
    then show ?thesis using t(2) by (simp add: ascii_def)
  next
    case n6: None
    show ?thesis
    proof (cases "re_search rx_sep_ymd c")
      case (Some m)
      then have "group m 1 = Some y" using assms n8 n6 by (simp add: parse_date_def)
      with caps_sep_ymd Some show ?thesis by (rule group_one_short)
    next
      case ns: None
      show ?thesis
      proof (cases "found (re_search rx_year_k c) \<or> found (re_search rx_month_k c)
                    \<or> found (re_search rx_day_k c)")
        case True
        then have "group_of (re_search rx_year_k c) 1 = Some y"
          using assms n8 n6 ns by (simp add: parse_date_def Let_def)
        then obtain m where m: "re_search rx_year_k c = Some m" "group m 1 = Some y"
          by (auto simp: group_of_def split: option.splits)
        with caps_year_k show ?thesis by (rule group_one_short)
      next
        case False
        show ?thesis
        proof (cases "re_search rx_md c")
          case (Some m2)
          then show ?thesis using assms n8 n6 ns False by (simp add: parse_date_def Let_def)
        next
          case None
          then have "loose_split (re_findall 0 rx_digits c) = (Some y, M, D)"
            using assms n8 n6 ns False by (simp add: parse_date_def Let_def)
          then show ?thesis using loose_split_year by fastforce
        qed
      qed
    qed
  qed
qed

lemma canonical_join:
  assumes "length y = 4" "list_all ascii_digit y"
    and "length m = 2" "list_all ascii_digit m" "digits_value m \<le> 12"
    and "length d = 2" "list_all ascii_digit d" "digits_value d \<le> 31"
  shows "canonical_date (y @ ascii ''/'' @ m @ ascii ''/'' @ d)"
  using assms by (simp add: canonical_date_def ascii_def nth_append)

lemma zeros_segment:
  "length (ascii ''00'') = 2" "list_all ascii_digit (ascii ''00'')"
  "digits_value (ascii ''00'') = 0"
  by (simp_all add: ascii_def ascii_digit_def digits_value_def digit_val_low)

lemma unknown_date_canonical: "cy \<le> 9999 \<Longrightarrow> canonical_date (unknown_date cy)"
proof -
  assume "cy \<le> 9999"
  then have "canonical_date (fmt04 cy @ ascii ''/'' @ ascii ''00'' @ ascii ''/'' @ ascii ''00'')"
    by (intro canonical_join) (simp_all add: fmt04_props zeros_segment)
  then show ?thesis by (simp add: unknown_date_def ascii_def)
qed

lemma norm_year_props:
  assumes "cy \<le> 9999" and "\<forall>y. Y = Some y \<longrightarrow> length y \<le> 4"
    and "norm_year cy lim Y = Some YY"
  shows "length YY = 4 \<and> list_all ascii_digit YY"
proof (cases Y)
  case None
  then have "YY = fmt04 cy" using assms(3) by (simp add: norm_year_def)
  then show ?thesis using assms(1) fmt04_props by simp
next
  case (Some y)
  let ?t = "if length y = 2 then ascii ''20'' @ y else y"
  from Some assms(3) obtain n where n: "py_int lim ?t = Some n" "YY = fmt04 n"
    by (auto simp: norm_year_def)
  have "length ?t \<le> 4" using assms(2) Some by (simp add: ascii_def)
  then have "n < 10 ^ 4" using n(1) py_int_short by blast
  then have "n \<le> 9999" by simp
  then show ?thesis using n(2) fmt04_props by simp
qed

lemma norm_md_number:
  assumes "norm_md lim M = Some MM" and "py_int lim MM = Some mi"
  shows "(M = None \<and> MM = ascii ''00'' \<and> mi = 0)
         \<or> (\<exists>t. M = Some t \<and> py_int lim t = Some mi \<and> MM = fmt02 mi)"
proof (cases M)
  case None
  then have "MM = ascii ''00''" using assms(1) by (simp add: norm_md_def)
  then have "mi = 0" using assms(2) py_int_value zeros_segment(3) by fastforce
  then show ?thesis using None \<open>MM = ascii ''00''\<close> by simp
next
  case (Some t)
  then obtain n where n: "py_int lim t = Some n" "MM = fmt02 n"
    using assms(1) by (auto simp: norm_md_def)
  have "mi = digits_value (fmt02 n)" using assms(2) n(2) py_int_value by simp
  then have "mi = n" by (simp add: fmt02_value)
  then show ?thesis using Some n by simp
qed

lemma md_segment_props:
  assumes "norm_md lim M = Some MM" and "py_int lim MM = Some mi" and "b \<le> 99"
  shows "length (if mi < 1 \<or> b < mi then ascii ''00'' else MM) = 2
       \<and> list_all ascii_digit (if mi < 1 \<or> b < mi then ascii ''00'' else MM)
       \<and> digits_value (if mi < 1 \<or> b < mi then ascii ''00'' else MM) \<le> b"
proof (cases "mi < 1 \<or> b < mi")
  case True
  then show ?thesis using zeros_segment by simp
next
  case False
  then have "MM = fmt02 mi" using norm_md_number [OF assms(1,2)] by auto
  moreover have "mi \<le> 99" using False assms(3) by simp
  ultimately show ?thesis using False fmt02_props by simp
qed

lemma assemble_date_cases:
  "assemble_date cy lim (Y, M, D) = unknown_date cy
   \<or> (\<exists>YY MM DD mi di. norm_year cy lim Y = Some YY \<and> norm_md lim M = Some MM
         \<and> norm_md lim D = Some DD \<and> py_int lim MM = Some mi \<and> py_int lim DD = Some di
         \<and> assemble_date cy lim (Y, M, D)
             = YY @ ascii ''/'' @ (if mi < 1 \<or> 12 < mi then ascii ''00'' else MM)
                  @ ascii ''/'' @ (if di < 1 \<or> 31 < di then ascii ''00'' else DD))"
proof (cases "norm_year cy lim Y")
  case None
  then show ?thesis by (simp add: assemble_date_def)
next
  case y: (Some YY)
  show ?thesis
  proof (cases "norm_md lim M")
    case None
    then show ?thesis using y by (simp add: assemble_date_def)
  next
    case m: (Some MM)
    show ?thesis
    proof (cases "norm_md lim D")
      case None
      then show ?thesis using y m by (simp add: assemble_date_def)
    next
      case d: (Some DD)
      show ?thesis
      proof (cases "py_int lim MM")
        case None
        then show ?thesis using y m d by (simp add: assemble_date_def)
      next
        case mi: (Some mi)
        show ?thesis
        proof (cases "py_int lim DD")
          case None
          then show ?thesis using y m d mi by (simp add: assemble_date_def)
        next
          case (Some di)
          have "assemble_date cy lim (Y, M, D)
             = YY @ ascii ''/'' @ (if mi < 1 \<or> 12 < mi then ascii ''00'' else MM)
                  @ ascii ''/'' @ (if di < 1 \<or> 31 < di then ascii ''00'' else DD)"
            using y m d mi Some by (simp add: assemble_date_def)
          then show ?thesis using y m d mi Some by blast
        qed
      qed
    qed
  qed
qed

lemma assemble_canonical:
  assumes "cy \<le> 9999" and "\<forall>y. Y = Some y \<longrightarrow> length y \<le> 4"
  shows "canonical_date (assemble_date cy lim (Y, M, D))"
  using assemble_date_cases [of cy lim Y M D]
proof
  assume "assemble_date cy lim (Y, M, D) = unknown_date cy"
  then show ?thesis using assms(1) unknown_date_canonical by simp
next
  assume "\<exists>YY MM DD mi di. norm_year cy lim Y = Some YY \<and> norm_md lim M = Some MM
         \<and> norm_md lim D = Some DD \<and> py_int lim MM = Some mi \<and> py_int lim DD = Some di
         \<and> assemble_date cy lim (Y, M, D)
             = YY @ ascii ''/'' @ (if mi < 1 \<or> 12 < mi then ascii ''00'' else MM)
                  @ ascii ''/'' @ (if di < 1 \<or> 31 < di then ascii ''00'' else DD)"
  then obtain YY MM DD mi di where p: "norm_year cy lim Y = Some YY" "norm_md lim M = Some MM"
      "norm_md lim D = Some DD" "py_int lim MM = Some mi" "py_int lim DD = Some di"
      and r: "assemble_date cy lim (Y, M, D)
             = YY @ ascii ''/'' @ (if mi < 1 \<or> 12 < mi then ascii ''00'' else MM)
                  @ ascii ''/'' @ (if di < 1 \<or> 31 < di then ascii ''00'' else DD)"
    by blast
  have y: "length YY = 4 \<and> list_all ascii_digit YY"
    using assms p(1) by (rule norm_year_props)
  have m: "length (if mi < 1 \<or> 12 < mi then ascii ''00'' else MM) = 2
       \<and> list_all ascii_digit (if mi < 1 \<or> 12 < mi then ascii ''00'' else MM)
       \<and> digits_value (if mi < 1 \<or> 12 < mi then ascii ''00'' else MM) \<le> 12"
    using p(2,4) by (rule md_segment_props) simp
  have d: "length (if di < 1 \<or> 31 < di then ascii ''00'' else DD) = 2
       \<and> list_all ascii_digit (if di < 1 \<or> 31 < di then ascii ''00'' else DD)
       \<and> digits_value (if di < 1 \<or> 31 < di then ascii ''00'' else DD) \<le> 31"
    using p(3,5) by (rule md_segment_props) simp
  show ?thesis unfolding r using y m d by (intro canonical_join) simp_all
qed

lemma fmt_date_uniform_cases:
  "fmt_date_uniform cy lim s = unknown_date cy
   \<or> fmt_date_uniform cy lim s = assemble_date cy lim (date_fields s)"
  by (simp add: fmt_date_uniform_def date_fields_def)

lemma date_fields_year_short: "date_fields s = (Some y, M, D) \<Longrightarrow> length y \<le> 4"
  unfolding date_fields_def by (rule parse_date_year_short)

lemma fmt_date_uniform_is_canonical:
  assumes "cy \<le> 9999"
  shows "canonical_date (fmt_date_uniform cy lim s)"
proof -
  obtain Y M D where f: "date_fields s = (Y, M, D)" by (cases "date_fields s")
  have "\<forall>y. Y = Some y \<longrightarrow> length y \<le> 4" using f date_fields_year_short by blast
  with assms have "canonical_date (assemble_date cy lim (Y, M, D))" by (rule assemble_canonical)
  then show ?thesis
    using fmt_date_uniform_cases [of cy lim s] f unknown_date_canonical [OF assms] by auto
qed

lemma unknown_date_parts:
  assumes "cy \<le> 9999"
  shows "take 4 (unknown_date cy) = fmt04 cy"
    and "take 2 (drop 5 (unknown_date cy)) = ascii ''00''"
    and "drop 8 (unknown_date cy) = ascii ''00''"
  using fmt04_props(1) [OF assms] by (simp_all add: unknown_date_def ascii_def)

lemma py_int_zeros: "py_int lim (ascii ''00'') = Some 0"
  by (simp add: eval_num eval_chars)

lemma assemble_all_missing: "assemble_date cy lim (None, None, None) = unknown_date cy"
proof -
  have "assemble_date cy lim (None, None, None)
          = fmt04 cy @ ascii ''/'' @ ascii ''00'' @ ascii ''/'' @ ascii ''00''"
    by (simp add: assemble_date_def norm_year_def norm_md_def py_int_zeros)
  then show ?thesis by (simp add: unknown_date_def ascii_def)
qed

lemma assemble_year_missing:
  assumes "cy \<le> 9999"
  shows "take 4 (assemble_date cy lim (None, M, D)) = fmt04 cy"
  using assemble_date_cases [of cy lim None M D]
proof
  assume "assemble_date cy lim (None, M, D) = unknown_date cy"
  then show ?thesis using unknown_date_parts(1) [OF assms] by simp
next
  assume "\<exists>YY MM DD mi di. norm_year cy lim None = Some YY \<and> norm_md lim M = Some MM
         \<and> norm_md lim D = Some DD \<and> py_int lim MM = Some mi \<and> py_int lim DD = Some di
         \<and> assemble_date cy lim (None, M, D)
             = YY @ ascii ''/'' @ (if mi < 1 \<or> 12 < mi then ascii ''00'' else MM)
                  @ ascii ''/'' @ (if di < 1 \<or> 31 < di then ascii ''00'' else DD)"
  then obtain rest where "assemble_date cy lim (None, M, D) = fmt04 cy @ rest"
    by (auto simp: norm_year_def)
  then show ?thesis using fmt04_props(1) [OF assms] by simp
qed

lemma assemble_month_day_unknown:
  assumes "cy \<le> 9999" and "\<forall>y. Y = Some y \<longrightarrow> length y \<le> 4"
  shows "(\<forall>m n. M = Some m \<and> py_int lim m = Some n \<and> (n < 1 \<or> 12 < n) \<longrightarrow>
            take 2 (drop 5 (assemble_date cy lim (Y, M, D))) = ascii ''00'')
       \<and> (\<forall>d n. D = Some d \<and> py_int lim d = Some n \<and> (n < 1 \<or> 31 < n) \<longrightarrow>
            drop 8 (assemble_date cy lim (Y, M, D)) = ascii ''00'')"
  using assemble_date_cases [of cy lim Y M D]
proof
  assume u: "assemble_date cy lim (Y, M, D) = unknown_date cy"
  have "take 2 (drop 5 (assemble_date cy lim (Y, M, D))) = ascii ''00''"
    and "drop 8 (assemble_date cy lim (Y, M, D)) = ascii ''00''"
    unfolding u using unknown_date_parts(2,3) [OF assms(1)] by simp_all
  then show ?thesis by blast
next
  assume "\<exists>YY MM DD mi di. norm_year cy lim Y = Some YY \<and> norm_md lim M = Some MM
         \<and> norm_md lim D = Some DD \<and> py_int lim MM = Some mi \<and> py_int lim DD = Some di
         \<and> assemble_date cy lim (Y, M, D)
             = YY @ ascii ''/'' @ (if mi < 1 \<or> 12 < mi then ascii ''00'' else MM)
                  @ ascii ''/'' @ (if di < 1 \<or> 31 < di then ascii ''00'' else DD)"
  then obtain YY MM DD mi di where p: "norm_year cy lim Y = Some YY" "norm_md lim M = Some MM"
      "norm_md lim D = Some DD" "py_int lim MM = Some mi" "py_int lim DD = Some di"
      and r: "assemble_date cy lim (Y, M, D)
             = YY @ ascii ''/'' @ (if mi < 1 \<or> 12 < mi then ascii ''00'' else MM)
                  @ ascii ''/'' @ (if di < 1 \<or> 31 < di then ascii ''00'' else DD)"
    by blast
  let ?ms = "if mi < 1 \<or> 12 < mi then ascii ''00'' else MM"
  let ?ds = "if di < 1 \<or> 31 < di then ascii ''00'' else DD"
  have y: "length YY = 4" using assms p(1) norm_year_props by blast
  have ml: "length ?ms = 2" using md_segment_props [OF p(2,4), of 12] by simp
  have dl: "length ?ds = 2" using md_segment_props [OF p(3,5), of 31] by simp
  have month: "take 2 (drop 5 (assemble_date cy lim (Y, M, D))) = ?ms"
    unfolding r using y ml by (simp add: ascii_def)
  have day: "drop 8 (assemble_date cy lim (Y, M, D)) = ?ds"
    unfolding r using y ml by (simp add: ascii_def)
  have mnum: "\<And>m n. M = Some m \<Longrightarrow> py_int lim m = Some n \<Longrightarrow> mi = n"
    using norm_md_number [OF p(2,4)] by auto
  have dnum: "\<And>d n. D = Some d \<Longrightarrow> py_int lim d = Some n \<Longrightarrow> di = n"
    using norm_md_number [OF p(3,5)] by auto
  have "\<And>m n. M = Some m \<Longrightarrow> py_int lim m = Some n \<Longrightarrow> n < 1 \<or> 12 < n \<Longrightarrow>
          take 2 (drop 5 (assemble_date cy lim (Y, M, D))) = ascii ''00''"
    using month mnum by auto
  moreover have "\<And>d n. D = Some d \<Longrightarrow> py_int lim d = Some n \<Longrightarrow> n < 1 \<or> 31 < n \<Longrightarrow>
          drop 8 (assemble_date cy lim (Y, M, D)) = ascii ''00''"
    using day dnum by auto
  ultimately show ?thesis by blast
qed

text \<open>
  Claim C1. For a current year of at most four digits (\<open>datetime\<close> has no other), the date
  normalizer returns, for every string and every digit limit of the interpreter, ten
  characters \<open>YYYY/MM/DD\<close> of ASCII digits and slashes with the month at most 12 and the
  day at most 31. When the cascade finds no year the year is the current one; a month
  outside 1..12 or a day outside 1..31 is written \<open>00\<close>; when the cascade finds nothing the
  result is the current year followed by \<open>/00/00\<close>. The function is total: an \<open>int\<close>
  that raises leads to that same result.
\<close>

theorem fmt_date_uniform_canonical:
  assumes "cy \<le> 9999"
  shows "canonical_date (fmt_date_uniform cy lim s)
    \<and> (date_fields s1 = (None, M1, D1) \<longrightarrow> take 4 (fmt_date_uniform cy lim s1) = fmt04 cy)
    \<and> (date_fields s2 = (Y2, Some m2, D2) \<and> py_int lim m2 = Some n2 \<and> (n2 < 1 \<or> 12 < n2)
         \<longrightarrow> take 2 (drop 5 (fmt_date_uniform cy lim s2)) = ascii ''00'')
    \<and> (date_fields s3 = (Y3, M3, Some d3) \<and> py_int lim d3 = Some n3 \<and> (n3 < 1 \<or> 31 < n3)
         \<longrightarrow> drop 8 (fmt_date_uniform cy lim s3) = ascii ''00'')
    \<and> (date_fields s4 = (None, None, None)
         \<longrightarrow> fmt_date_uniform cy lim s4 = fmt04 cy @ ascii ''/00/00'')"
proof (intro conjI impI)
  show "canonical_date (fmt_date_uniform cy lim s)"
    using assms by (rule fmt_date_uniform_is_canonical)
next
  assume f: "date_fields s1 = (None, M1, D1)"
  show "take 4 (fmt_date_uniform cy lim s1) = fmt04 cy"
    using fmt_date_uniform_cases [of cy lim s1] f
      unknown_date_parts(1) [OF assms] assemble_year_missing [OF assms, of lim M1 D1]
    by auto
next
  assume f: "date_fields s2 = (Y2, Some m2, D2) \<and> py_int lim m2 = Some n2
             \<and> (n2 < 1 \<or> 12 < n2)"
  have "\<forall>y. Y2 = Some y \<longrightarrow> length y \<le> 4" using f date_fields_year_short by blast
  then have "take 2 (drop 5 (assemble_date cy lim (Y2, Some m2, D2))) = ascii ''00''"
    using assemble_month_day_unknown [OF assms, of Y2 "Some m2" lim D2] f by blast
  then show "take 2 (drop 5 (fmt_date_uniform cy lim s2)) = ascii ''00''"
    using fmt_date_uniform_cases [of cy lim s2] f unknown_date_parts(2) [OF assms] by auto
next
  assume f: "date_fields s3 = (Y3, M3, Some d3) \<and> py_int lim d3 = Some n3
             \<and> (n3 < 1 \<or> 31 < n3)"
  have "\<forall>y. Y3 = Some y \<longrightarrow> length y \<le> 4" using f date_fields_year_short by blast
  then have "drop 8 (assemble_date cy lim (Y3, M3, Some d3)) = ascii ''00''"
    using assemble_month_day_unknown [OF assms, of Y3 M3 lim "Some d3"] f by blast
  then show "drop 8 (fmt_date_uniform cy lim s3) = ascii ''00''"
    using fmt_date_uniform_cases [of cy lim s3] f unknown_date_parts(3) [OF assms] by auto
next
  assume f: "date_fields s4 = (None, None, None)"
  have "fmt_date_uniform cy lim s4 = unknown_date cy"
    using fmt_date_uniform_cases [of cy lim s4] f assemble_all_missing by auto
  then show "fmt_date_uniform cy lim s4 = fmt04 cy @ ascii ''/00/00''"
    by (simp add: unknown_date_def)
qed

lemma date_fields_md: "date_fields (ascii ''03-05'') = (None, Some (ascii ''03''), Some (ascii ''05''))"
  unfolding date_fields_def by (rule parse_vec3)

lemma date_fields_month13:
  "date_fields (ascii ''2024-13-05'')
     = (Some (ascii ''2024''), Some (ascii ''13''), Some (ascii ''05''))"
  by (simp add: date_fields_def parse_date_def clean_date_def eval_rx eval_chars date_rx)

lemma date_fields_day32:
  "date_fields (ascii ''2024-12-32'')
     = (Some (ascii ''2024''), Some (ascii ''12''), Some (ascii ''32''))"
  by (simp add: date_fields_def parse_date_def clean_date_def eval_rx eval_chars date_rx)

lemma date_fields_letters: "date_fields (ascii ''abc'') = (None, None, None)"
  by (simp add: date_fields_def parse_date_def clean_date_def eval_rx eval_chars date_rx)

lemma py_int_13_32:
  "py_int (Some 4300) (ascii ''13'') = Some 13" "py_int (Some 4300) (ascii ''32'') = Some 32"
  by (simp_all add: eval_num eval_chars)

lemma fmt04_2026: "fmt04 2026 = ascii ''2026''"
  by (simp add: eval_num eval_chars)

theorem fmt_date_uniform_canonical_witness:
  "(2026::nat) \<le> 9999
   \<and> canonical_date (fmt_date_uniform 2026 (Some 4300) (ascii ''2024.3.5''))
   \<and> date_fields (ascii ''03-05'') = (None, Some (ascii ''03''), Some (ascii ''05''))
   \<and> take 4 (fmt_date_uniform 2026 (Some 4300) (ascii ''03-05'')) = ascii ''2026''
   \<and> date_fields (ascii ''2024-13-05'')
        = (Some (ascii ''2024''), Some (ascii ''13''), Some (ascii ''05''))
   \<and> py_int (Some 4300) (ascii ''13'') = Some 13
   \<and> take 2 (drop 5 (fmt_date_uniform 2026 (Some 4300) (ascii ''2024-13-05''))) = ascii ''00''
   \<and> date_fields (ascii ''2024-12-32'')
        = (Some (ascii ''2024''), Some (ascii ''12''), Some (ascii ''32''))
   \<and> py_int (Some 4300) (ascii ''32'') = Some 32
   \<and> drop 8 (fmt_date_uniform 2026 (Some 4300) (ascii ''2024-12-32'')) = ascii ''00''
   \<and> date_fields (ascii ''abc'') = (None, None, None)
   \<and> fmt_date_uniform 2026 (Some 4300) (ascii ''abc'') = ascii ''2026/00/00''"
proof -
  have y: "(2026::nat) \<le> 9999" by simp
  note t = fmt_date_uniform_canonical [OF y, of "Some 4300" "ascii ''2024.3.5''"
      "ascii ''03-05''" "Some (ascii ''03'')" "Some (ascii ''05'')"
      "ascii ''2024-13-05''" "Some (ascii ''2024'')" "ascii ''13''" "Some (ascii ''05'')" 13
      "ascii ''2024-12-32''" "Some (ascii ''2024'')" "Some (ascii ''12'')" "ascii ''32''" 32
      "ascii ''abc''"]
  have a: "canonical_date (fmt_date_uniform 2026 (Some 4300) (ascii ''2024.3.5''))"
    using t by blast
  have b: "take 4 (fmt_date_uniform 2026 (Some 4300) (ascii ''03-05'')) = ascii ''2026''"
    using t date_fields_md fmt04_2026 by simp
  have c: "take 2 (drop 5 (fmt_date_uniform 2026 (Some 4300) (ascii ''2024-13-05''))) = ascii ''00''"
    using t date_fields_month13 py_int_13_32(1) by simp
  have d: "drop 8 (fmt_date_uniform 2026 (Some 4300) (ascii ''2024-12-32'')) = ascii ''00''"
    using t date_fields_day32 py_int_13_32(2) by simp
  have e: "fmt_date_uniform 2026 (Some 4300) (ascii ''abc'') = ascii ''2026/00/00''"
    using t date_fields_letters fmt04_2026 by (simp add: ascii_def)
  show ?thesis
    using y a b c d e date_fields_md date_fields_month13 date_fields_day32 date_fields_letters
      py_int_13_32 by simp
qed

section \<open>The reduced amount\<close>

lemma bitlen_bound: "n < 2 ^ k \<Longrightarrow> bitlen n \<le> k"
proof (induction k arbitrary: n)
  case 0
  then have "n = 0" by simp
  then show ?case by (simp add: bitlen.simps)
next
  case (Suc k)
  show ?case
  proof (cases "n = 0")
    case True
    then show ?thesis by (simp add: bitlen.simps)
  next
    case False
    have "n div 2 < 2 ^ k" using Suc.prems by simp
    then have "bitlen (n div 2) \<le> k" by (rule Suc.IH)
    moreover have "bitlen n = Suc (bitlen (n div 2))"
      using False by (subst bitlen.simps) simp
    ultimately show ?thesis by simp
  qed
qed

lemma round53_small: "n < 2 ^ 53 \<Longrightarrow> round53 n = n"
  using bitlen_bound [of n 53] by (simp add: round53_def Let_def)

lemma round_up_or_down:
  fixes N sh :: nat
  assumes "0 < sh"
  defines "q \<equiv> N div 2 ^ sh" and "r \<equiv> N mod 2 ^ sh" and "h \<equiv> 2 ^ (sh - 1)"
  defines "R \<equiv> (if h < r \<or> (r = h \<and> odd q) then q + 1 else q) * 2 ^ sh"
  shows "q * 2 ^ sh \<le> R" and "R \<le> N + h"
proof -
  have two_h: "(2::nat) ^ sh = 2 * h"
    using assms(1) unfolding h_def by (cases sh) simp_all
  have split: "N = q * 2 ^ sh + r"
    unfolding q_def r_def using div_mult_mod_eq [of N "2 ^ sh"] by simp
  show "q * 2 ^ sh \<le> R" unfolding R_def by simp
  show "R \<le> N + h"
  proof (cases "h < r \<or> (r = h \<and> odd q)")
    case True
    then have "h \<le> r" by auto
    moreover have "R = q * 2 ^ sh + 2 * h" using True two_h unfolding R_def by simp
    ultimately show ?thesis using split by simp
  next
    case False
    then have "R = q * 2 ^ sh" unfolding R_def by simp
    then show ?thesis using split by simp
  qed
qed

lemma pow_split: "sh \<le> e \<Longrightarrow> a * 2 ^ e = a * 2 ^ (e - sh) * (2::nat) ^ sh"
  by (simp add: power_add [symmetric] mult.assoc)

lemma round53_between:
  assumes big: "N < 2 ^ 102" and lo: "a * 2 ^ 52 \<le> N" and hi: "N + 2 ^ 48 < (a + 1) * 2 ^ 52"
  shows "a * 2 ^ 52 \<le> round53 N \<and> round53 N < (a + 1) * 2 ^ 52"
proof (cases "bitlen N \<le> 53")
  case True
  then have "round53 N = N" by (simp add: round53_def Let_def)
  then show ?thesis using lo hi by simp
next
  case False
  define sh where "sh = bitlen N - 53"
  have b: "bitlen N \<le> 102" using big by (rule bitlen_bound)
  have sh: "0 < sh" "sh \<le> 49" using False b by (simp_all add: sh_def)
  define q where "q = N div 2 ^ sh"
  define R where "R = (if 2 ^ (sh - 1) < N mod 2 ^ sh \<or> (N mod 2 ^ sh = 2 ^ (sh - 1) \<and> odd q)
                       then q + 1 else q) * 2 ^ sh"
  have R: "round53 N = R"
    using False by (simp add: round53_def Let_def sh_def R_def q_def)
  have down: "q * 2 ^ sh \<le> R" and up: "R \<le> N + 2 ^ (sh - 1)"
    using round_up_or_down [OF sh(1), of N] unfolding R_def q_def by simp_all
  have "(2::nat) ^ (sh - 1) \<le> 2 ^ 48" using sh(2) by (intro power_increasing) simp_all
  then have upper: "R < (a + 1) * 2 ^ 52" using up hi by linarith
  have e: "a * 2 ^ 52 = a * 2 ^ (52 - sh) * 2 ^ sh"
    using sh(2) by (intro pow_split) simp
  have "a * 2 ^ (52 - sh) * 2 ^ sh \<le> N" using lo by (simp only: e)
  then have "a * 2 ^ (52 - sh) \<le> q"
    unfolding q_def by (simp add: less_eq_div_iff_mult_less_eq)
  then have "a * 2 ^ (52 - sh) * 2 ^ sh \<le> q * 2 ^ sh" by (rule mult_le_mono1)
  then have "a * 2 ^ 52 \<le> q * 2 ^ sh" by (simp only: e)
  then have "a * 2 ^ 52 \<le> R" using down by (rule le_trans)
  then show ?thesis using upper R by (simp only: simp_thms)
qed

lemma int_times_08_exact:
  assumes "n < 2 ^ 50"
  shows "int_times_08 n = Some (4 * n div 5)"
proof -
  define k where "k = 4 * n div 5"
  define N where "N = n * 3602879701896397"
  have k1: "5 * k \<le> 4 * n" and k2: "4 * n < 5 * k + 5" unfolding k_def by arith+
  have n: "n < 1125899906842624" using assms by simp
  have p52: "(2::nat) ^ 52 = 4503599627370496" and p48: "(2::nat) ^ 48 = 281474976710656"
    by simp_all
  have "N < 5070602400912917605986812821504" unfolding N_def using n by simp
  moreover have "(2::nat) ^ 102 = 5070602400912917605986812821504" by simp
  ultimately have big: "N < 2 ^ 102" by simp
  have lo: "k * 2 ^ 52 \<le> N" unfolding N_def p52 using k1 by simp
  have hi: "N + 2 ^ 48 < (k + 1) * 2 ^ 52" unfolding N_def p52 p48 using k2 n by simp
  have "k * 2 ^ 52 \<le> round53 N \<and> round53 N < (k + 1) * 2 ^ 52"
    using big lo hi by (rule round53_between)
  then have "round53 N div 2 ^ 52 = k"
    by (intro div_nat_eqI) (simp_all add: mult.commute)
  moreover have "n < 2 ^ 53" using assms by simp
  then have "float_of_nat n = Some n"
    using round53_small [of n] by (simp add: float_of_nat_def Let_def)
  ultimately show ?thesis by (simp add: int_times_08_def N_def k_def)
qed

lemma discounted_fine_number:
  assumes "fine_text \<noteq> []" and "py_int lim (filter is_digit fine_text) = Some n"
    and "n < 2 ^ 50"
  shows "discounted_fine lim fine_text = fmt_commas (4 * n div 5) @ [ch_won]"
  using assms(1,2) int_times_08_exact [OF assms(3)]
  by (simp add: discounted_fine_def fmt_won_def)

lemma discounted_fine_no_digit:
  assumes "fine_text \<noteq> []" and "filter is_digit fine_text = []"
  shows "discounted_fine lim fine_text = []"
  using assms by (simp add: discounted_fine_def py_int_def)

lemma discounted_fine_empty: "discounted_fine lim [] = ascii ''0'' @ [ch_won]"
proof -
  have "int_times_08 0 = Some (4 * 0 div 5)" by (rule int_times_08_exact) simp
  then show ?thesis
    by (simp add: discounted_fine_def fmt_won_def fmt_commas.simps digits10.simps ascii_def)
qed

lemma fine_of_reduced_on_same_line:
  "extract_fine_amount_from_text lim reduced_on_same_line = Inr (ascii ''50,000'' @ [ch_won])"
  by (simp add: reduced_on_same_line_def fine_defs fine_rx eval_rx eval_chars eval_num)

lemma digits_of_50000:
  "py_int lim (filter is_digit (ascii ''50,000'' @ [ch_won])) = Some 50000"
  by (simp add: eval_num eval_chars)

lemma discounted_fine_50000:
  "discounted_fine lim (ascii ''50,000'' @ [ch_won]) = ascii ''40,000'' @ [ch_won]"
proof -
  have "discounted_fine lim (ascii ''50,000'' @ [ch_won]) = fmt_commas (4 * 50000 div 5) @ [ch_won]"
    using digits_of_50000 by (intro discounted_fine_number) (simp_all add: ascii_def)
  moreover have "fmt_commas (4 * 50000 div 5) = ascii ''40,000''"
    by (simp add: eval_num eval_chars)
  ultimately show ?thesis by simp
qed

text \<open>
  Claim C5, as the code has it. The reduced amount is computed from the fine text of the
  record. When the text holds digits of a number \<open>n\<close> below \<open>2^50\<close>, it is
  \<open>floor (0.8 n)\<close>, written with separators and the currency unit (the product is a
  double-precision one, exact in this range). When the text is not empty and holds no
  digit, it is the empty string. When the text is empty, it is \<open>0\<close> with the currency
  unit. From the one-line example the fine extractor takes 50,000, and the reduced amount
  of that is 40,000.
\<close>

theorem discounted_fine_amended:
  "r_discounted (compile_final_results cy lim res mv)
     = discounted_fine lim (r_fine (compile_final_results cy lim res mv))
   \<and> (fine_text \<noteq> [] \<and> py_int lim (filter is_digit fine_text) = Some n \<and> n < 2 ^ 50
        \<longrightarrow> discounted_fine lim fine_text = fmt_commas (4 * n div 5) @ [ch_won])
   \<and> (other \<noteq> [] \<and> filter is_digit other = [] \<longrightarrow> discounted_fine lim other = [])
   \<and> discounted_fine lim [] = ascii ''0'' @ [ch_won]
   \<and> extract_fine_amount_from_text lim reduced_on_same_line = Inr (ascii ''50,000'' @ [ch_won])
   \<and> discounted_fine lim (ascii ''50,000'' @ [ch_won]) = ascii ''40,000'' @ [ch_won]"
proof -
  have "r_discounted (compile_final_results cy lim res mv)
     = discounted_fine lim (r_fine (compile_final_results cy lim res mv))"
    by (simp add: compile_final_results_def)
  then show ?thesis
    using discounted_fine_number [of fine_text lim n] discounted_fine_no_digit [of other lim]
      discounted_fine_empty [of lim] fine_of_reduced_on_same_line [of lim]
      discounted_fine_50000 [of lim]
    by blast
qed

theorem discounted_fine_amended_witness:
  "ascii ''50,000'' @ [ch_won] \<noteq> []
   \<and> py_int (Some 4300) (filter is_digit (ascii ''50,000'' @ [ch_won])) = Some 50000
   \<and> (50000::nat) < 2 ^ 50
   \<and> discounted_fine (Some 4300) (ascii ''50,000'' @ [ch_won])
        = fmt_commas (4 * 50000 div 5) @ [ch_won]
   \<and> ascii ''abc'' \<noteq> [] \<and> filter is_digit (ascii ''abc'') = []
   \<and> discounted_fine (Some 4300) (ascii ''abc'') = []"
proof -
  have a: "ascii ''50,000'' @ [ch_won] \<noteq> []" and b: "(50000::nat) < 2 ^ 50"
    and c: "ascii ''abc'' \<noteq> []" and d: "filter is_digit (ascii ''abc'') = []"
    by (simp_all add: eval_chars)
  note t = discounted_fine_amended [of 2026 "Some 4300" "[]" None
      "ascii ''50,000'' @ [ch_won]" 50000 "ascii ''abc''"]
  have "discounted_fine (Some 4300) (ascii ''50,000'' @ [ch_won])
        = fmt_commas (4 * 50000 div 5) @ [ch_won]"
    using t a b digits_of_50000 [of "Some 4300"] by blast
  moreover have "discounted_fine (Some 4300) (ascii ''abc'') = []"
    using t c d by blast
  ultimately show ?thesis using a b c d digits_of_50000 [of "Some 4300"] by blast
qed

text \<open>
  Claim C5 as it is stated fails on a record without a fine: the empty fine text holds no
  number, and the reduced amount of the record is then \<open>0\<close> with the currency unit, not
  the empty string.
\<close>

theorem discounted_fine_empty_counterexample:
  "r_fine (compile_final_results 2026 (Some 4300) [] None) = []
   \<and> py_int (Some 4300) (r_fine (compile_final_results 2026 (Some 4300) [] None)) = None
   \<and> r_discounted (compile_final_results 2026 (Some 4300) [] None) = ascii ''0'' @ [ch_won]
   \<and> r_discounted (compile_final_results 2026 (Some 4300) [] None) \<noteq> []"
  using discounted_fine_empty [of "Some 4300"]
  by (simp add: compile_final_results_def dict_get_def py_int_def)

section \<open>The matcher returns the first best candidate\<close>

lemma match_step_filter:
  "foldl (match_step sim ocr key) acc rows
     = foldl (\<lambda>acc r. if snd acc < sim ocr (plate_of r) then (Some r, sim ocr (plate_of r)) else acc)
         acc (same_last4 key rows)"
proof (induction rows arbitrary: acc)
  case Nil
  then show ?case by (simp add: same_last4_def)
next
  case (Cons r rows)
  show ?case
  proof (cases "last4_of (plate_of r) = Some key")
    case True
    then have "match_step sim ocr key acc r
        = (if snd acc < sim ocr (plate_of r) then (Some r, sim ocr (plate_of r)) else acc)"
      by (simp add: match_step_def plate_of_def Let_def)
    then show ?thesis using True Cons.IH by (simp add: same_last4_def)
  next
    case False
    then have "match_step sim ocr key acc r = acc"
      by (auto simp: match_step_def plate_of_def Let_def split: option.splits)
    then show ?thesis using False Cons.IH by (simp add: same_last4_def)
  qed
qed

lemma best_agree:
  fixes score :: "row \<Rightarrow> 's::linorder"
  assumes "c' \<in> set cs" and "score c < score c'"
  shows "find (\<lambda>r. \<forall>r' \<in> set (c # cs). score r' \<le> score r) (c # cs)
           = find (\<lambda>r. \<forall>r' \<in> set cs. score r' \<le> score r) cs"
proof -
  have "\<not> score c' \<le> score c" using assms(2) by (simp add: not_le)
  then have "\<not> (\<forall>r' \<in> set (c # cs). score r' \<le> score c)" using assms(1) by auto
  moreover have "find (\<lambda>r. \<forall>r' \<in> set (c # cs). score r' \<le> score r) cs
      = find (\<lambda>r. \<forall>r' \<in> set cs. score r' \<le> score r) cs"
  proof (rule find_cong)
    show "cs = cs" by simp
  next
    fix x
    assume "x \<in> set cs"
    show "(\<forall>r' \<in> set (c # cs). score r' \<le> score x) = (\<forall>r' \<in> set cs. score r' \<le> score x)"
      using assms by (auto intro: less_imp_le order.trans)
  qed
  ultimately show ?thesis by auto
qed

lemma foldl_first_best:
  fixes score :: "row \<Rightarrow> 's::linorder"
  shows "fst (foldl (\<lambda>acc r. if snd acc < score r then (Some r, score r) else acc) (b, s) cs)
           = (if \<forall>c \<in> set cs. score c \<le> s then b else first_best score cs)"
proof (induction cs arbitrary: b s)
  case Nil
  then show ?case by simp
next
  case (Cons c cs)
  show ?case
  proof (cases "s < score c")
    case True
    have step: "fst (foldl (\<lambda>acc r. if snd acc < score r then (Some r, score r) else acc) (b, s) (c # cs))
        = (if \<forall>x \<in> set cs. score x \<le> score c then Some c else first_best score cs)"
      using True Cons.IH [of "Some c" "score c"] by simp
    show ?thesis
    proof (cases "\<forall>x \<in> set cs. score x \<le> score c")
      case all: True
      then have "first_best score (c # cs) = Some c" by (simp add: first_best_def)
      then show ?thesis using step all True by (auto simp: not_le)
    next
      case False
      then obtain c' where c': "c' \<in> set cs" "score c < score c'" by (auto simp: not_le)
      then have "first_best score (c # cs) = first_best score cs"
        unfolding first_best_def by (rule best_agree)
      then show ?thesis using step False True by (auto simp: not_le)
    qed
  next
    case low: False
    have step: "fst (foldl (\<lambda>acc r. if snd acc < score r then (Some r, score r) else acc) (b, s) (c # cs))
        = (if \<forall>x \<in> set cs. score x \<le> s then b else first_best score cs)"
      using low Cons.IH [of b s] by simp
    show ?thesis
    proof (cases "\<forall>x \<in> set cs. score x \<le> s")
      case True
      then show ?thesis using step low by (auto simp: not_less)
    next
      case False
      then obtain c' where c': "c' \<in> set cs" "s < score c'" by (auto simp: not_le)
      then have "score c < score c'" using low by (auto simp: not_less)
      with c'(1) have "first_best score (c # cs) = first_best score cs"
        unfolding first_best_def by (rule best_agree)
      then show ?thesis using step False by auto
    qed
  qed
qed

lemma last4_of_empty: "last4_of [] = None"
  by (simp add: last4_of_def rx_digits_def rx_digit_def eval_rx)

lemma match_vehicle_number_key:
  assumes "last4_of ocr = Some key" and "length key = 4"
  shows "match_vehicle_number sim ocr (Some rows)
           = (if \<forall>c \<in> set (same_last4 key rows). sim ocr (plate_of c) \<le> 0 then None
              else first_best (\<lambda>r. sim ocr (plate_of r)) (same_last4 key rows))"
proof -
  have "ocr \<noteq> []" using assms(1) last4_of_empty by auto
  then have "match_vehicle_number sim ocr (Some rows)
      = fst (foldl (match_step sim ocr key) (None, 0) rows)"
    using assms by (simp add: match_vehicle_number_def)
  then show ?thesis
    unfolding match_step_filter
    using foldl_first_best [of "\<lambda>r. sim ocr (plate_of r)" None 0 "same_last4 key rows"]
    by simp
qed

section \<open>\<open>re.findall(r'\d+', s)\<close> is the list of the digit runs\<close>

lemma rx_digit_step:
  "rx_match rx_digit st =
     (case post st of [] \<Rightarrow> [] | c # r \<Rightarrow> if is_digit c then [adv st 1] else [])"
  by (cases "post st") (simp_all add: rx_digit_def in_class_def step_char_def adv_def)

lemma adv_adv1: "post st = c # r \<Longrightarrow> adv (adv st 1) k = adv st (Suc k)"
  by (simp add: adv_def)

lemma adv_zero: "adv st 0 = st"
  by (simp add: adv_def)

lemma reps_digit_greedy:
  "(lo \<le> min h (length (takeWhile is_digit (post st))) \<longrightarrow>
      (\<exists>rest. reps (rx_match rx_digit) h lo st
                = adv st (min h (length (takeWhile is_digit (post st)))) # rest))
   \<and> (\<not> lo \<le> min h (length (takeWhile is_digit (post st))) \<longrightarrow>
      reps (rx_match rx_digit) h lo st = [])"
proof (induction h arbitrary: lo st)
  case 0
  then show ?case by (simp add: adv_zero)
next
  case (Suc h)
  show ?case
  proof (cases "post st")
    case Nil
    then show ?thesis by (simp add: rx_digit_step adv_zero)
  next
    case (Cons c r)
    show ?thesis
    proof (cases "is_digit c")
      case False
      then show ?thesis using Cons by (simp add: rx_digit_step adv_zero)
    next
      case True
      define st1 where "st1 = adv st 1"
      define n1 where "n1 = length (takeWhile is_digit r)"
      have post1: "post st1 = r" using Cons by (simp add: adv_def st1_def)
      have run: "length (takeWhile is_digit (post st)) = Suc n1"
        using Cons True by (simp add: n1_def)
      have unfold: "reps (rx_match rx_digit) (Suc h) lo st
          = reps (rx_match rx_digit) h (lo - 1) st1 @ (if lo = 0 then [st] else [])"
        using Cons True by (simp add: rx_digit_step st1_def)
      have ih1: "lo - 1 \<le> min h n1 \<Longrightarrow>
          \<exists>rest. reps (rx_match rx_digit) h (lo - 1) st1 = adv st1 (min h n1) # rest"
        and ih2: "\<not> lo - 1 \<le> min h n1 \<Longrightarrow> reps (rx_match rx_digit) h (lo - 1) st1 = []"
        using Suc.IH [of "lo - 1" st1] unfolding post1 n1_def by blast+
      have same: "adv st1 (min h n1) = adv st (Suc (min h n1))"
        unfolding st1_def using Cons by (rule adv_adv1)
      show ?thesis
      proof (cases "lo - 1 \<le> min h n1")
        case le: True
        then obtain rest where rest: "reps (rx_match rx_digit) h (lo - 1) st1
            = adv st1 (min h n1) # rest"
          using ih1 by blast
        have "reps (rx_match rx_digit) (Suc h) lo st
            = adv st (Suc (min h n1)) # rest @ (if lo = 0 then [st] else [])"
          unfolding unfold rest same by simp
        moreover have "lo \<le> Suc (min h n1)" using le by arith
        ultimately show ?thesis unfolding run by simp
      next
        case gt: False
        then have "reps (rx_match rx_digit) h (lo - 1) st1 = []" by (rule ih2)
        moreover have "lo \<noteq> 0" using gt by auto
        ultimately have "reps (rx_match rx_digit) (Suc h) lo st = []" unfolding unfold by simp
        moreover have "\<not> lo \<le> Suc (min h n1)" using gt by arith
        ultimately show ?thesis unfolding run by simp
      qed
    qed
  qed
qed

lemma match_at_digits:
  "match_at rx_digits p s =
     (if takeWhile is_digit s = [] then None
      else Some \<lparr>pre = rev (takeWhile is_digit s) @ p, post = dropWhile is_digit s,
                 grps = [(0, takeWhile is_digit s)]\<rparr>)"
proof -
  define st where "st = \<lparr>pre = p, post = s, grps = []\<rparr>"
  define n where "n = length (takeWhile is_digit s)"
  have n: "min (length s) n = n" by (simp add: n_def length_takeWhile_le)
  have tk: "take n s = takeWhile is_digit s" unfolding n_def by (rule takeWhile_eq_take [symmetric])
  have dr: "drop n s = dropWhile is_digit s" unfolding n_def by (rule dropWhile_eq_drop [symmetric])
  have ps: "post st = s" by (simp add: st_def)
  have len: "length (dropWhile is_digit s) = length s - n" unfolding dr [symmetric] by simp
  have "n \<le> length s" by (simp add: n_def length_takeWhile_le)
  then have "length s - length (dropWhile is_digit s) = n" using len by arith
  then have cons: "take (length s - length (dropWhile is_digit s)) s = takeWhile is_digit s"
    using tk by simp
  have g1: "1 \<le> n \<Longrightarrow> \<exists>rest. reps (rx_match rx_digit) (length s) 1 st = adv st n # rest"
    and g2: "\<not> 1 \<le> n \<Longrightarrow> reps (rx_match rx_digit) (length s) 1 st = []"
    using reps_digit_greedy [of 1 "length s" st] unfolding ps n_def [symmetric] n by blast+
  have m: "match_at rx_digits p s =
      (case map (\<lambda>st'. st'\<lparr>grps := (0, consumed st st') # grps st'\<rparr>)
              (reps (rx_match rx_digit) (length s) 1 st) of
         m # _ \<Rightarrow> Some m | [] \<Rightarrow> None)"
    by (simp add: match_at_def rx_digits_def st_def)
  show ?thesis
  proof (cases "takeWhile is_digit s = []")
    case True
    then have "\<not> 1 \<le> n" by (simp add: n_def)
    then have "reps (rx_match rx_digit) (length s) 1 st = []" by (rule g2)
    then show ?thesis using True unfolding m by simp
  next
    case False
    then have "1 \<le> n" unfolding n_def by (cases "takeWhile is_digit s") simp_all
    then obtain rest where "reps (rx_match rx_digit) (length s) 1 st = adv st n # rest"
      using g1 by blast
    then show ?thesis using False tk dr cons unfolding m
      by (simp add: adv_def consumed_def st_def)
  qed
qed

lemma search_from_digits:
  "map_option (\<lambda>m. (group_text m 0, post m)) (search_from rx_digits p s) =
     (if dropWhile (\<lambda>c. \<not> is_digit c) s = [] then None
      else Some (takeWhile is_digit (dropWhile (\<lambda>c. \<not> is_digit c) s),
                 dropWhile is_digit (dropWhile (\<lambda>c. \<not> is_digit c) s)))"
proof (induction s arbitrary: p)
  case Nil
  then show ?case by (simp add: match_at_digits)
next
  case (Cons c cs)
  show ?case
  proof (cases "is_digit c")
    case True
    then show ?thesis by (simp add: match_at_digits group_text_def group_def)
  next
    case False
    then have "search_from rx_digits p (c # cs) = search_from rx_digits (c # p) cs"
      by (simp add: match_at_digits)
    then show ?thesis using False Cons.IH [of "c # p"] by simp
  qed
qed

lemma run_shortens:
  assumes "dropWhile (\<lambda>c. \<not> is_digit c) s \<noteq> []"
  shows "length (dropWhile is_digit (dropWhile (\<lambda>c. \<not> is_digit c) s)) < length s"
proof -
  obtain c cs where c: "dropWhile (\<lambda>c. \<not> is_digit c) s = c # cs"
    using assms by (cases "dropWhile (\<lambda>c. \<not> is_digit c) s") auto
  have "is_digit c" using c hd_dropWhile [of "\<lambda>c. \<not> is_digit c" s] by fastforce
  then have "length (dropWhile is_digit (c # cs)) \<le> length cs"
    by (simp add: length_dropWhile_le)
  moreover have "length (c # cs) \<le> length s"
    using c length_dropWhile_le [of "\<lambda>c. \<not> is_digit c" s] by simp
  ultimately show ?thesis using c by simp
qed

lemma findall_digits: "findall_from 0 rx_digits p s = digit_runs s"
proof (induction s arbitrary: p rule: digit_runs.induct)
  case (1 s)
  define rest where "rest = dropWhile (\<lambda>c. \<not> is_digit c) s"
  have found: "map_option (\<lambda>m. (group_text m 0, post m)) (search_from rx_digits p s) =
     (if rest = [] then None else Some (takeWhile is_digit rest, dropWhile is_digit rest))"
    unfolding rest_def by (rule search_from_digits)
  show ?case
  proof (cases "rest = []")
    case True
    then have "search_from rx_digits p s = None" using found by simp
    then have "findall_from 0 rx_digits p s = []" by (subst findall_from.simps) simp
    moreover have "digit_runs s = []"
      using True by (subst digit_runs.simps) (simp add: rest_def Let_def)
    ultimately show ?thesis by simp
  next
    case False
    then obtain m where m: "search_from rx_digits p s = Some m"
        "group_text m 0 = takeWhile is_digit rest" "post m = dropWhile is_digit rest"
      using found by (cases "search_from rx_digits p s") auto
    have shorter: "length (post m) < length s"
      using run_shortens [of s] False m(3) by (simp add: rest_def)
    have "findall_from 0 rx_digits p s
            = takeWhile is_digit rest # findall_from 0 rx_digits (pre m) (dropWhile is_digit rest)"
      using m shorter by (subst findall_from.simps) simp
    moreover have "findall_from 0 rx_digits (pre m) (dropWhile is_digit rest)
            = digit_runs (dropWhile is_digit rest)"
      using False by (intro 1) (simp_all add: rest_def)
    moreover have "digit_runs s = takeWhile is_digit rest # digit_runs (dropWhile is_digit rest)"
      using False by (subst digit_runs.simps) (simp add: rest_def Let_def)
    ultimately show ?thesis by simp
  qed
qed

lemma last4_of_runs:
  "last4_of s = (case digit_runs s of [] \<Rightarrow> None
                 | r # rs \<Rightarrow> Some (drop (length (last (r # rs)) - 4) (last (r # rs))))"
  by (simp add: last4_of_def re_findall_def findall_digits Let_def split: list.splits)


lemma suffix_key_last4: "suffix_key s = Some k \<longleftrightarrow> last4_of s = Some k \<and> length k = 4"
proof (cases "digit_runs s")
  case Nil
  then show ?thesis by (simp add: suffix_key_def last4_of_runs)
next
  case (Cons r rs)
  define l where "l = last (r # rs)"
  have a: "last4_of s = Some (drop (length l - 4) l)"
    using Cons by (simp add: last4_of_runs l_def)
  have b: "suffix_key s = (if length l < 4 then None else Some (drop (length l - 4) l))"
    using Cons by (simp add: suffix_key_def l_def Let_def)
  show ?thesis
  proof (cases "length l < 4")
    case True
    then show ?thesis using a b by auto
  next
    case False
    then have "length (drop (length l - 4) l) = 4" by simp
    then show ?thesis using a b False by auto
  qed
qed

lemma suffix_key_none:
  "suffix_key s = None \<longleftrightarrow> last4_of s = None \<or> (\<exists>k. last4_of s = Some k \<and> length k \<noteq> 4)"
proof (cases "digit_runs s")
  case Nil
  then show ?thesis by (simp add: suffix_key_def last4_of_runs)
next
  case (Cons r rs)
  define l where "l = last (r # rs)"
  have a: "last4_of s = Some (drop (length l - 4) l)"
    using Cons by (simp add: last4_of_runs l_def)
  have b: "suffix_key s = (if length l < 4 then None else Some (drop (length l - 4) l))"
    using Cons by (simp add: suffix_key_def l_def Let_def)
  show ?thesis
  proof (cases "length l < 4")
    case True
    then have "length (drop (length l - 4) l) \<noteq> 4" by simp
    then show ?thesis using a b True by simp
  next
    case False
    then have "length (drop (length l - 4) l) = 4" by simp
    then show ?thesis using a b False by simp
  qed
qed

lemma candidates_same_last4: "length key = 4 \<Longrightarrow> candidates key rows = same_last4 key rows"
  by (simp add: candidates_def same_last4_def suffix_key_last4)

lemma match_none_without_roster: "match_vehicle_number sim ocr None = None"
  by (simp add: match_vehicle_number_def)

lemma match_none_without_key:
  assumes "suffix_key ocr = None"
  shows "match_vehicle_number sim ocr (Some rows) = None"
  using assms suffix_key_none [of ocr]
  by (auto simp: match_vehicle_number_def split: option.splits)

lemma match_first_best:
  fixes sim :: "ustr \<Rightarrow> ustr \<Rightarrow> 's::{linorder,zero}"
  assumes "suffix_key ocr = Some key"
    and "\<forall>r \<in> set (candidates key rows). 0 < sim ocr (plate_of r)"
  shows "match_vehicle_number sim ocr (Some rows)
           = first_best (\<lambda>r. sim ocr (plate_of r)) (candidates key rows)"
proof -
  have k: "last4_of ocr = Some key" "length key = 4" using assms(1) suffix_key_last4 by blast+
  have c: "candidates key rows = same_last4 key rows" using k(2) by (rule candidates_same_last4)
  have m: "match_vehicle_number sim ocr (Some rows)
           = (if \<forall>c \<in> set (same_last4 key rows). sim ocr (plate_of c) \<le> 0 then None
              else first_best (\<lambda>r. sim ocr (plate_of r)) (same_last4 key rows))"
    using k by (rule match_vehicle_number_key)
  show ?thesis
  proof (cases "same_last4 key rows")
    case Nil
    then show ?thesis using m c by (simp add: first_best_def)
  next
    case (Cons r rs)
    then have "r \<in> set (candidates key rows)" using c by simp
    then have "0 < sim ocr (plate_of r)" using assms(2) by blast
    then have "\<not> sim ocr (plate_of r) \<le> 0" by (simp add: not_le)
    then have "\<not> (\<forall>c \<in> set (same_last4 key rows). sim ocr (plate_of c) \<le> 0)"
      using Cons by auto
    then have "match_vehicle_number sim ocr (Some rows)
           = first_best (\<lambda>r. sim ocr (plate_of r)) (same_last4 key rows)"
      using m by (simp only: if_False)
    then show ?thesis using c by simp
  qed
qed

section \<open>The longest match of two strings that share a character\<close>

lemma b2j_absent: "elt \<notin> set b \<Longrightarrow> b2j b elt = []"
  by (auto simp: b2j_def filter_empty_conv)

lemma b2j_popular: "popular b elt \<Longrightarrow> b2j b elt = []"
  by (simp add: b2j_def)

lemma inner_loop_mono:
  "inner_loop j2len i blo bhi js (new, bi, bj, bs) = (new', bi', bj', bs') \<Longrightarrow> bs \<le> bs'"
proof (induction js arbitrary: new bi bj bs)
  case Nil
  then show ?case by simp
next
  case (Cons j js)
  show ?case
  proof (cases "j < blo")
    case True
    then have "inner_loop j2len i blo bhi js (new, bi, bj, bs) = (new', bi', bj', bs')"
      using Cons.prems by simp
    then show ?thesis by (rule Cons.IH)
  next
    case False
    note nlo = False
    show ?thesis
    proof (cases "bhi \<le> j")
      case True
      then show ?thesis using nlo Cons.prems by simp
    next
      case False
      define k where "k = Suc (j2len_get j2len j)"
      show ?thesis
      proof (cases "bs < k")
        case True
        then have "inner_loop j2len i blo bhi js ((j, k) # new, i + 1 - k, j + 1 - k, k)
            = (new', bi', bj', bs')"
          using Cons.prems nlo False unfolding k_def by (simp add: Let_def)
        then have "k \<le> bs'" by (rule Cons.IH)
        then show ?thesis using True by simp
      next
        case low: False
        then have "inner_loop j2len i blo bhi js ((j, k) # new, bi, bj, bs)
            = (new', bi', bj', bs')"
          using Cons.prems nlo False unfolding k_def by (simp add: Let_def)
        then show ?thesis by (rule Cons.IH)
      qed
    qed
  qed
qed

lemma inner_loop_hit:
  assumes "js \<noteq> []" and "\<forall>j \<in> set js. blo \<le> j \<and> j < bhi"
    and "inner_loop j2len i blo bhi js (new, bi, bj, bs) = (new', bi', bj', bs')"
  shows "0 < bs'"
proof -
  obtain j js' where js: "js = j # js'" using assms(1) by (cases js) auto
  then have r: "\<not> j < blo" "\<not> bhi \<le> j" using assms(2) by auto
  define k where "k = Suc (j2len_get j2len j)"
  show ?thesis
  proof (cases "bs < k")
    case True
    then have "inner_loop j2len i blo bhi js' ((j, k) # new, i + 1 - k, j + 1 - k, k)
        = (new', bi', bj', bs')"
      using assms(3) js r unfolding k_def by (simp add: Let_def)
    then have "k \<le> bs'" by (rule inner_loop_mono)
    then show ?thesis by (simp add: k_def)
  next
    case False
    then have "inner_loop j2len i blo bhi js' ((j, k) # new, bi, bj, bs)
        = (new', bi', bj', bs')"
      using assms(3) js r unfolding k_def by (simp add: Let_def)
    then have "bs \<le> bs'" by (rule inner_loop_mono)
    then show ?thesis using False by (simp add: k_def)
  qed
qed

lemma outer_loop_mono:
  "outer_loop a b blo bhi is (j2len, bi, bj, bs) = (bi', bj', bs') \<Longrightarrow> bs \<le> bs'"
proof (induction "is" arbitrary: j2len bi bj bs)
  case Nil
  then show ?case by simp
next
  case (Cons i "is")
  obtain new bi1 bj1 bs1 where
    inner: "inner_loop j2len i blo bhi (b2j b (a ! i)) ([], bi, bj, bs) = (new, bi1, bj1, bs1)"
    by (metis prod_cases4)
  then have "bs \<le> bs1" by (rule inner_loop_mono)
  moreover have "outer_loop a b blo bhi is (new, bi1, bj1, bs1) = (bi', bj', bs')"
    using Cons.prems inner by simp
  then have "bs1 \<le> bs'" by (rule Cons.IH)
  ultimately show ?case by simp
qed

lemma outer_loop_hit:
  assumes "i0 \<in> set is" and "b2j b (a ! i0) \<noteq> []"
    and "\<forall>j \<in> set (b2j b (a ! i0)). blo \<le> j \<and> j < bhi"
    and "outer_loop a b blo bhi is (j2len, bi, bj, bs) = (bi', bj', bs')"
  shows "0 < bs'"
  using assms(1,4)
proof (induction "is" arbitrary: j2len bi bj bs)
  case Nil
  then show ?case by simp
next
  case (Cons i "is")
  obtain new bi1 bj1 bs1 where
    inner: "inner_loop j2len i blo bhi (b2j b (a ! i)) ([], bi, bj, bs) = (new, bi1, bj1, bs1)"
    by (metis prod_cases4)
  have rest: "outer_loop a b blo bhi is (new, bi1, bj1, bs1) = (bi', bj', bs')"
    using Cons.prems(2) inner by simp
  show ?case
  proof (cases "i = i0")
    case True
    then have "0 < bs1" using inner_loop_hit [OF assms(2) assms(3)] inner by simp
    moreover have "bs1 \<le> bs'" using rest by (rule outer_loop_mono)
    ultimately show ?thesis by simp
  next
    case False
    then have "i0 \<in> set is" using Cons.prems(1) by simp
    then show ?thesis using rest by (rule Cons.IH)
  qed
qed

lemma extend_back_mono:
  "extend_back a b alo blo (besti, bestj, bestsize) = (bi, bj, bs) \<Longrightarrow> bestsize \<le> bs"
proof (induction a b alo blo "(besti, bestj, bestsize)" arbitrary: besti bestj bestsize
    rule: extend_back.induct)
  case (1 a b alo blo besti bestj bestsize)
  show ?case
  proof (cases "alo < besti \<and> blo < bestj \<and> a ! (besti - 1) = b ! (bestj - 1)")
    case True
    then have "extend_back a b alo blo (besti, bestj, bestsize)
        = extend_back a b alo blo (besti - 1, bestj - 1, bestsize + 1)"
      by (subst extend_back.simps) simp
    then have "extend_back a b alo blo (besti - 1, bestj - 1, bestsize + 1) = (bi, bj, bs)"
      using "1.prems" by simp
    then have "bestsize + 1 \<le> bs" using "1.hyps" True by blast
    then show ?thesis by simp
  next
    case False
    have "extend_back a b alo blo (besti, bestj, bestsize) = (besti, bestj, bestsize)"
      by (subst extend_back.simps) (rule if_not_P [OF False])
    then show ?thesis using "1.prems" by simp
  qed
qed

lemma extend_forward_mono:
  "extend_forward a b ahi bhi (besti, bestj, bestsize) = (bi, bj, bs) \<Longrightarrow> bestsize \<le> bs"
proof (induction a b ahi bhi "(besti, bestj, bestsize)" arbitrary: besti bestj bestsize
    rule: extend_forward.induct)
  case (1 a b ahi bhi besti bestj bestsize)
  show ?case
  proof (cases "besti + bestsize < ahi \<and> bestj + bestsize < bhi
         \<and> a ! (besti + bestsize) = b ! (bestj + bestsize)")
    case True
    then have "extend_forward a b ahi bhi (besti, bestj, bestsize)
        = extend_forward a b ahi bhi (besti, bestj, bestsize + 1)"
      by (subst extend_forward.simps) simp
    then have "extend_forward a b ahi bhi (besti, bestj, bestsize + 1) = (bi, bj, bs)"
      using "1.prems" by simp
    then have "bestsize + 1 \<le> bs" using "1.hyps" True by blast
    then show ?thesis by simp
  next
    case False
    have "extend_forward a b ahi bhi (besti, bestj, bestsize) = (besti, bestj, bestsize)"
      by (subst extend_forward.simps) (rule if_not_P [OF False])
    then show ?thesis using "1.prems" by simp
  qed
qed

lemma find_longest_match_hit:
  assumes "c \<in> set a" and "c \<in> set b" and "\<not> popular b c"
    and "find_longest_match a b 0 (length a) 0 (length b) = (i, j, k)"
  shows "0 < k"
proof -
  obtain i0 where i0: "i0 < length a" "a ! i0 = c" using assms(1) by (auto simp: in_set_conv_nth)
  obtain j0 where j0: "j0 < length b" "b ! j0 = c" using assms(2) by (auto simp: in_set_conv_nth)
  have l: "b2j b (a ! i0) = filter (\<lambda>j. b ! j = c) [0..<length b]"
    using assms(3) i0(2) by (simp add: b2j_def)
  have "j0 \<in> set (b2j b (a ! i0))" using j0 l by simp
  then have ne: "b2j b (a ! i0) \<noteq> []" by auto
  have rng: "\<forall>j \<in> set (b2j b (a ! i0)). 0 \<le> j \<and> j < length b" using l by simp
  have mem: "i0 \<in> set [0..<length a]" using i0(1) by simp
  obtain i1 j1 k1 where
    o: "outer_loop a b 0 (length b) [0..<length a] ([], 0, 0, 0) = (i1, j1, k1)"
    by (metis prod_cases3)
  obtain i2 j2 k2 where e: "extend_back a b 0 0 (i1, j1, k1) = (i2, j2, k2)"
    by (metis prod_cases3)
  have f: "extend_forward a b (length a) (length b) (i2, j2, k2) = (i, j, k)"
    using assms(4) o e by (simp add: find_longest_match_def)
  have "0 < k1" using mem ne rng o by (rule outer_loop_hit)
  moreover have "k1 \<le> k2" using e by (rule extend_back_mono)
  moreover have "k2 \<le> k" using f by (rule extend_forward_mono)
  ultimately show ?thesis by simp
qed

lemma matching_loop_keeps: "matched blocks \<le> matched (matching_loop a b queue blocks)"
proof (induction a b queue blocks rule: matching_loop.induct)
  case (1 a b blocks)
  then show ?case by simp
next
  case (2 a b alo ahi blo bhi queue blocks)
  obtain i j k where f: "find_longest_match a b alo ahi blo bhi = (i, j, k)"
    by (metis prod_cases3)
  show ?case
  proof (cases "k = 0")
    case True
    then have "matching_loop a b ((alo, ahi, blo, bhi) # queue) blocks
        = matching_loop a b queue blocks"
      using f by simp
    then show ?thesis using "2.IH"(1) [of i "(j, k)" j k] f True by simp
  next
    case False
    then have "matching_loop a b ((alo, ahi, blo, bhi) # queue) blocks
        = matching_loop a b
            ((if i + k < ahi \<and> j + k < bhi then [(i + k, ahi, j + k, bhi)] else [])
             @ (if alo < i \<and> blo < j then [(alo, i, blo, j)] else []) @ queue)
            (blocks @ [(i, j, k)])"
      using f by simp
    moreover have "matched (blocks @ [(i, j, k)])
        \<le> matched (matching_loop a b
            ((if i + k < ahi \<and> j + k < bhi then [(i + k, ahi, j + k, bhi)] else [])
             @ (if alo < i \<and> blo < j then [(alo, i, blo, j)] else []) @ queue)
            (blocks @ [(i, j, k)]))"
      using "2.IH"(2) [of i "(j, k)" j k] f False by simp
    ultimately show ?thesis by (simp add: matched_def)
  qed
qed

lemma matching_blocks_hit:
  assumes "c \<in> set a" and "c \<in> set b" and "\<not> popular b c"
  shows "0 < matched (matching_blocks a b)"
proof -
  obtain i j k where f: "find_longest_match a b 0 (length a) 0 (length b) = (i, j, k)"
    by (metis prod_cases3)
  have k: "0 < k" using assms f by (rule find_longest_match_hit)
  then have "matching_blocks a b
      = matching_loop a b
          ((if i + k < length a \<and> j + k < length b
            then [(i + k, length a, j + k, length b)] else [])
           @ (if 0 < i \<and> 0 < j then [(0, i, 0, j)] else []) @ [])
          ([] @ [(i, j, k)])"
    using f by (simp add: matching_blocks_def)
  moreover have "matched ([] @ [(i, j, k)]) = k" by (simp add: matched_def)
  ultimately have "k \<le> matched (matching_blocks a b)"
    using matching_loop_keeps [of "[] @ [(i, j, k)]" a b] by metis
  then show ?thesis using k by simp
qed

section \<open>The quotient of two doubles\<close>

lemma bitlen_0: "bitlen 0 = 0"
  by (simp add: bitlen.simps)

lemma fdiv_zero: "fdiv 0 d = 0"
  by (simp add: fdiv_def bitlen_0 Let_def)

lemma round53_0: "round53 0 = 0"
  by (simp add: round53_def bitlen_0)

lemma calculate_ratio_zero: "calculate_ratio 0 t = (if t = 0 then 2 ^ 1074 else 0)"
  by (simp add: calculate_ratio_def round53_0 fdiv_zero)


lemma bitlen_exact: "2 ^ k \<le> n \<Longrightarrow> n < 2 ^ Suc k \<Longrightarrow> bitlen n = Suc k"
proof (induction k arbitrary: n)
  case 0
  then have "n = 1" by simp
  then show ?case by (simp add: bitlen.simps)
next
  case (Suc k)
  have "2 ^ k \<le> n div 2" using Suc.prems(1) by simp
  moreover have "n div 2 < 2 ^ Suc k" using Suc.prems(2) by simp
  ultimately have "bitlen (n div 2) = Suc k" by (rule Suc.IH)
  moreover have "n \<noteq> 0"
  proof
    assume "n = 0"
    then show False using Suc.prems(1) by simp
  qed
  ultimately show ?case by (subst bitlen.simps) simp
qed

lemma bitlen_low: "n \<noteq> 0 \<Longrightarrow> 2 ^ (bitlen n - 1) \<le> n"
proof (induction n rule: bitlen.induct)
  case (1 n)
  show ?case
  proof (cases "n div 2 = 0")
    case True
    then have "bitlen (n div 2) = 0" by (simp add: bitlen_0)
    then have "bitlen n = 1" using "1.prems" by (subst bitlen.simps) simp
    then show ?thesis using "1.prems" by simp
  next
    case False
    then have ih: "2 ^ (bitlen (n div 2) - 1) \<le> n div 2" using "1.IH" "1.prems" by simp
    have b: "bitlen n = Suc (bitlen (n div 2))" using "1.prems" by (subst bitlen.simps) simp
    have "bitlen (n div 2) \<noteq> 0" using False by (subst bitlen.simps) simp
    then have "bitlen n - 1 = Suc (bitlen (n div 2) - 1)" using b by simp
    then have "(2::nat) ^ (bitlen n - 1) = 2 * 2 ^ (bitlen (n div 2) - 1)" by simp
    also have "\<dots> \<le> 2 * (n div 2)" using ih by simp
    also have "\<dots> \<le> n" by simp
    finally show ?thesis .
  qed
qed

lemma round53_pos:
  assumes "0 < n"
  shows "0 < round53 n"
proof (cases "bitlen n \<le> 53")
  case True
  then show ?thesis using assms by (simp add: round53_def Let_def)
next
  case False
  define sh where "sh = bitlen n - 53"
  define q where "q = n div 2 ^ sh"
  have R: "round53 n = (if 2 ^ (sh - 1) < n mod 2 ^ sh \<or> (n mod 2 ^ sh = 2 ^ (sh - 1) \<and> odd q)
                  then q + 1 else q) * 2 ^ sh"
    using False by (simp add: round53_def Let_def sh_def q_def)
  have "(2::nat) ^ sh \<le> 2 ^ (bitlen n - 1)" unfolding sh_def by (rule power_increasing) simp_all
  also have "\<dots> \<le> n" using assms by (intro bitlen_low) simp
  finally have "1 \<le> q" by (simp add: q_def less_eq_div_iff_mult_less_eq)
  then show ?thesis unfolding R by simp
qed

lemma round53_le: "round53 n \<le> 2 * n"
proof (cases "bitlen n \<le> 53")
  case True
  then show ?thesis by (simp add: round53_def Let_def)
next
  case False
  define sh where "sh = bitlen n - 53"
  have sh: "0 < sh" using False by (simp add: sh_def)
  have n: "n \<noteq> 0" using False bitlen_0 by (cases "n = 0") auto
  have R: "round53 n = (if 2 ^ (sh - 1) < n mod 2 ^ sh \<or> (n mod 2 ^ sh = 2 ^ (sh - 1) \<and> odd (n div 2 ^ sh))
                  then n div 2 ^ sh + 1 else n div 2 ^ sh) * 2 ^ sh"
    using False by (simp add: round53_def Let_def sh_def)
  have "round53 n \<le> n + 2 ^ (sh - 1)"
    unfolding R using round_up_or_down(2) [OF sh, of n] by simp
  moreover have "(2::nat) ^ (sh - 1) \<le> 2 ^ (bitlen n - 1)"
    unfolding sh_def by (rule power_increasing) simp_all
  moreover have "2 ^ (bitlen n - 1) \<le> n" using n by (rule bitlen_low)
  ultimately show ?thesis by linarith
qed

lemma fdiv_pos:
  assumes "0 < n" and "0 < d" and "d \<le> n * 2 ^ 1074"
  shows "0 < fdiv n d"
proof -
  define x where "x = n * 2 ^ 1074"
  define sh where "sh = bitlen (x div d) - 53"
  define q where "q = x div (d * 2 ^ sh)"
  have F: "fdiv n d = (if d * 2 ^ sh < 2 * (x mod (d * 2 ^ sh))
                     \<or> (2 * (x mod (d * 2 ^ sh)) = d * 2 ^ sh \<and> odd q)
                  then q + 1 else q) * 2 ^ sh"
    unfolding fdiv_def Let_def x_def sh_def q_def by (rule refl)
  have "d \<le> x" using assms(3) by (simp only: x_def)
  then have xd: "1 \<le> x div d" using assms(2) by (simp add: less_eq_div_iff_mult_less_eq)
  have "(2::nat) ^ sh \<le> 2 ^ (bitlen (x div d) - 1)"
    unfolding sh_def by (rule power_increasing) simp_all
  also have "\<dots> \<le> x div d" using xd by (intro bitlen_low) simp
  finally have "2 ^ sh * d \<le> x" using assms(2) by (simp add: less_eq_div_iff_mult_less_eq)
  then have "1 \<le> q"
    using assms(2) by (simp add: q_def less_eq_div_iff_mult_less_eq mult.commute)
  then show ?thesis unfolding F by simp
qed

lemma fdiv_normal:
  assumes lo: "2 ^ 52 * d \<le> n * 2 ^ e" and hi: "n * 2 ^ e < 2 ^ 53 * d" and e: "e \<le> 1074"
  shows "fdiv n d
           = (if d < 2 * (n * 2 ^ e mod d) \<or> (2 * (n * 2 ^ e mod d) = d \<and> odd (n * 2 ^ e div d))
              then n * 2 ^ e div d + 1 else n * 2 ^ e div d) * 2 ^ (1074 - e)"
proof -
  define s where "s = 1074 - e"
  define m where "m = n * 2 ^ e"
  have d: "0 < d" using hi by (cases d) simp_all
  have x: "n * 2 ^ 1074 = m * 2 ^ s"
    unfolding m_def s_def using e by (simp add: mult.assoc power_add [symmetric])
  have "2 ^ (52 + s) * d = (2 ^ 52 * d) * 2 ^ s" by (simp add: power_add)
  also have "\<dots> \<le> m * 2 ^ s" using lo unfolding m_def by (rule mult_le_mono1)
  finally have low: "2 ^ (52 + s) \<le> m * 2 ^ s div d"
    using d by (simp add: less_eq_div_iff_mult_less_eq)
  have "m * 2 ^ s < (2 ^ 53 * d) * 2 ^ s" using hi unfolding m_def by simp
  also have "\<dots> = 2 ^ Suc (52 + s) * d" by (simp add: power_add)
  finally have high: "m * 2 ^ s div d < 2 ^ Suc (52 + s)"
    using d by (simp add: div_less_iff_less_mult)
  have "bitlen (m * 2 ^ s div d) = Suc (52 + s)" using low high by (rule bitlen_exact)
  then have sh: "bitlen (m * 2 ^ s div d) - 53 = s" by simp
  have q: "m * 2 ^ s div (d * 2 ^ s) = m div d" by simp
  have r: "m * 2 ^ s mod (d * 2 ^ s) = (m mod d) * 2 ^ s" by simp
  have c1: "d * 2 ^ s < 2 * ((m mod d) * 2 ^ s) \<longleftrightarrow> d < 2 * (m mod d)"
    by (simp add: mult.assoc [symmetric])
  have c2: "2 * ((m mod d) * 2 ^ s) = d * 2 ^ s \<longleftrightarrow> 2 * (m mod d) = d"
    by (simp add: mult.assoc [symmetric])
  have "fdiv n d = (if d * 2 ^ s < 2 * (m * 2 ^ s mod (d * 2 ^ s))
                       \<or> (2 * (m * 2 ^ s mod (d * 2 ^ s)) = d * 2 ^ s
                          \<and> odd (m * 2 ^ s div (d * 2 ^ s)))
                    then m * 2 ^ s div (d * 2 ^ s) + 1 else m * 2 ^ s div (d * 2 ^ s)) * 2 ^ s"
    unfolding fdiv_def Let_def x sh by (rule refl)
  then show ?thesis unfolding q r c1 c2 unfolding m_def s_def .
qed


section \<open>The similarity of two strings that share a character is positive\<close>

lemma ratio_pos:
  assumes "c \<in> set a" and "c \<in> set b" and "\<not> popular b c"
    and "length a + length b < 2 ^ 64"
  shows "0 < ratio a b"
proof -
  define M where "M = matched (matching_blocks a b)"
  define T where "T = length a + length b"
  have M: "0 < M" unfolding M_def using assms(1-3) by (rule matching_blocks_hit)
  have "a \<noteq> []" using assms(1) by auto
  then have T: "0 < T" by (simp add: T_def)
  have n: "0 < 2 * round53 M" using round53_pos [OF M] by simp
  have d: "0 < round53 T" using T by (rule round53_pos)
  have g: "k \<le> (2 * round53 M) * k" for k :: nat using n by simp
  have "round53 T \<le> 2 * T" by (rule round53_le)
  also have "\<dots> \<le> 2 ^ 65" using assms(4) by (simp add: T_def)
  also have "(2::nat) ^ 65 \<le> 2 ^ 1074" by (rule power_increasing) simp_all
  also have "\<dots> \<le> (2 * round53 M) * 2 ^ 1074" by (rule g)
  finally have "round53 T \<le> (2 * round53 M) * 2 ^ 1074" .
  with n d have "0 < fdiv (2 * round53 M) (round53 T)" by (rule fdiv_pos)
  moreover have "ratio a b = fdiv (2 * round53 M) (round53 T)"
    using T unfolding ratio_def calculate_ratio_def M_def T_def by simp
  ultimately show ?thesis by simp
qed

lemma digit_runs_subset: "r \<in> set (digit_runs s) \<Longrightarrow> set r \<subseteq> set s"
proof (induction s rule: digit_runs.induct)
  case (1 s)
  define rest where "rest = dropWhile (\<lambda>c. \<not> is_digit c) s"
  have sub: "set rest \<subseteq> set s" unfolding rest_def by (auto dest: set_dropWhileD)
  show ?case
  proof (cases "rest = []")
    case True
    then have "digit_runs s = []" by (subst digit_runs.simps) (simp add: rest_def Let_def)
    then show ?thesis using "1.prems" by simp
  next
    case False
    then have runs: "digit_runs s = takeWhile is_digit rest # digit_runs (dropWhile is_digit rest)"
      by (subst digit_runs.simps) (simp add: rest_def Let_def)
    show ?thesis
    proof (cases "r = takeWhile is_digit rest")
      case True
      then have "set r \<subseteq> set rest" by (auto dest: set_takeWhileD)
      then show ?thesis using sub by blast
    next
      case other: False
      then have "r \<in> set (digit_runs (dropWhile is_digit rest))"
        using "1.prems" runs by simp
      then have "set r \<subseteq> set (dropWhile is_digit rest)"
        using "1.IH" [OF rest_def False] by simp
      moreover have "set (dropWhile is_digit rest) \<subseteq> set rest" by (auto dest: set_dropWhileD)
      ultimately show ?thesis using sub by blast
    qed
  qed
qed

lemma suffix_key_subset:
  assumes "suffix_key s = Some k"
  shows "set k \<subseteq> set s"
proof (cases "digit_runs s")
  case Nil
  then show ?thesis using assms by (simp add: suffix_key_def)
next
  case (Cons r rs)
  define l where "l = last (r # rs)"
  have "l \<in> set (digit_runs s)" unfolding l_def Cons by (rule last_in_set) simp
  then have l: "set l \<subseteq> set s" by (rule digit_runs_subset)
  have "k = drop (length l - 4) l"
    using assms Cons by (auto simp: suffix_key_def l_def Let_def split: if_splits)
  then have "set k \<subseteq> set l" by (simp add: set_drop_subset)
  then show ?thesis using l by blast
qed

lemma suffix_keys_share:
  assumes "suffix_key a = Some k" and "suffix_key b = Some k"
  shows "\<exists>c. c \<in> set a \<and> c \<in> set b"
proof -
  have "length k = 4" using assms(1) suffix_key_last4 by blast
  then obtain c where "c \<in> set k" by (cases k) auto
  then show ?thesis using suffix_key_subset [OF assms(1)] suffix_key_subset [OF assms(2)] by blast
qed

lemma short_not_popular: "length b < 200 \<Longrightarrow> \<not> popular b c"
  by (simp add: popular_def)

lemma candidate_ratio_pos:
  assumes "suffix_key ocr = Some key" and "r \<in> set (candidates key rows)"
    and "length (plate_of r) < 200" and "length ocr < 2 ^ 63"
  shows "0 < ratio ocr (plate_of r)"
proof -
  have "suffix_key (plate_of r) = Some key" using assms(2) by (simp add: candidates_def)
  then obtain c where c: "c \<in> set ocr" "c \<in> set (plate_of r)"
    using assms(1) suffix_keys_share by blast
  have "\<not> popular (plate_of r) c" using assms(3) by (rule short_not_popular)
  moreover have "length ocr + length (plate_of r) < 2 ^ 64" using assms(3,4) by simp
  ultimately show ?thesis using c ratio_pos by blast
qed

lemma match_by_key:
  fixes sim :: "ustr \<Rightarrow> ustr \<Rightarrow> 's::{linorder,zero}"
  assumes "suffix_key ocr = Some key"
  shows "match_vehicle_number sim ocr (Some rows)
           = (if \<forall>r \<in> set (candidates key rows). sim ocr (plate_of r) \<le> 0 then None
              else first_best (\<lambda>r. sim ocr (plate_of r)) (candidates key rows))"
proof -
  have k: "last4_of ocr = Some key" "length key = 4" using assms suffix_key_last4 by blast+
  have c: "candidates key rows = same_last4 key rows" using k(2) by (rule candidates_same_last4)
  show ?thesis unfolding c using k by (rule match_vehicle_number_key)
qed

lemma match_ratio_short:
  assumes "suffix_key ocr = Some key"
    and "\<forall>r \<in> set (candidates key rows). length (plate_of r) < 200"
    and "length ocr < 2 ^ 63"
  shows "match_vehicle_number ratio ocr (Some rows)
           = first_best (\<lambda>r. ratio ocr (plate_of r)) (candidates key rows)"
proof (rule match_first_best [OF assms(1)])
  show "\<forall>r \<in> set (candidates key rows). 0 < ratio ocr (plate_of r)"
  proof
    fix r
    assume r: "r \<in> set (candidates key rows)"
    then have "length (plate_of r) < 200" using assms(2) by blast
    with assms(1) r show "0 < ratio ocr (plate_of r)" using assms(3) by (rule candidate_ratio_pos)
  qed
qed

section \<open>The similarity on given strings\<close>

lemmas eval_runs = suffix_key_def digit_runs.simps Let_def is_digit_low is_digit_hangul
  ascii_def plate_99_def

lemma suffix_key_short: "suffix_key (ascii ''12x34'') = None"
  by (simp add: eval_runs)

lemma suffix_key_99: "suffix_key plate_99 = Some (ascii ''3456'')"
  by (simp add: eval_runs)

lemma candidates_other:
  "candidates (ascii ''3456'') [[(col_plate, [55, 55, 44032, 49, 49, 49, 49])]] = []"
  by (simp add: candidates_def plate_of_def dict_get_def eval_runs)

lemma candidates_3456:
  "candidates (ascii ''3456'') roster_3456 = [roster_3456 ! 0, roster_3456 ! 2]"
  by (auto simp: candidates_def plate_of_def dict_get_def roster_3456_def eval_runs)

lemma fdiv_8_14: "fdiv 8 14 = 5146971002709138 * 2 ^ 1021"
  by (subst fdiv_normal [of 14 8 53]) simp_all

lemma fdiv_12_14: "fdiv 12 14 = 7720456504063707 * 2 ^ 1021"
  by (subst fdiv_normal [of 14 12 53]) simp_all

lemmas eval_flm = find_longest_match_def b2j_def popular_def j2len_get_def Let_def upt_rec
  extend_back.simps extend_forward.simps plate_99_def

lemma blocks_12: "matching_blocks plate_99 [49, 50, 44032, 51, 52, 53, 54] = [(3, 3, 4)]"
proof -
  have f1: "find_longest_match plate_99 [49, 50, 44032, 51, 52, 53, 54] 0 7 0 7 = (3, 3, 4)"
    by (simp add: eval_flm)
  have f2: "find_longest_match plate_99 [49, 50, 44032, 51, 52, 53, 54] 0 3 0 3 = (0, 0, 0)"
    by (simp add: eval_flm)
  have l: "length plate_99 = 7" "length [49, 50, 44032, 51, 52, 53, 54::nat] = 7"
    by (simp_all add: plate_99_def)
  have "matching_blocks plate_99 [49, 50, 44032, 51, 52, 53, 54]
      = matching_loop plate_99 [49, 50, 44032, 51, 52, 53, 54] [(0, 7, 0, 7)] []"
    unfolding matching_blocks_def l by (rule refl)
  then show ?thesis by (simp add: f1 f2)
qed

lemma blocks_99: "matching_blocks plate_99 [57, 57, 44032, 51, 52, 53, 54] = [(3, 3, 4), (0, 0, 2)]"
proof -
  have f1: "find_longest_match plate_99 [57, 57, 44032, 51, 52, 53, 54] 0 7 0 7 = (3, 3, 4)"
    by (simp add: eval_flm)
  have f2: "find_longest_match plate_99 [57, 57, 44032, 51, 52, 53, 54] 0 3 0 3 = (0, 0, 2)"
    by (simp add: eval_flm)
  have f3: "find_longest_match plate_99 [57, 57, 44032, 51, 52, 53, 54] 2 3 2 3 = (2, 2, 0)"
    by (simp add: eval_flm)
  have l: "length plate_99 = 7" "length [57, 57, 44032, 51, 52, 53, 54::nat] = 7"
    by (simp_all add: plate_99_def)
  have "matching_blocks plate_99 [57, 57, 44032, 51, 52, 53, 54]
      = matching_loop plate_99 [57, 57, 44032, 51, 52, 53, 54] [(0, 7, 0, 7)] []"
    unfolding matching_blocks_def l by (rule refl)
  moreover have "find_longest_match plate_99 [57, 57, 44032, 51, 52, 53, 54]
      (Suc (Suc 0)) 3 (Suc (Suc 0)) 3 = (2, 2, 0)"
    using f3 by (simp only: numeral_2_eq_2)
  ultimately show ?thesis by (simp add: f1 f2)
qed

lemma round53_4_6_14: "round53 4 = 4" "round53 6 = 6" "round53 14 = 14"
  by (simp_all add: round53_small)

lemma ratio_12: "ratio plate_99 [49, 50, 44032, 51, 52, 53, 54] = 5146971002709138 * 2 ^ 1021"
proof -
  have "length plate_99 + length [49, 50, 44032, 51, 52, 53, 54::nat] = 14"
    by (simp add: plate_99_def)
  then have "ratio plate_99 [49, 50, 44032, 51, 52, 53, 54] = fdiv 8 14"
    unfolding ratio_def blocks_12 calculate_ratio_def by (simp add: matched_def round53_4_6_14)
  then show ?thesis by (simp only: fdiv_8_14)
qed

lemma ratio_99: "ratio plate_99 [57, 57, 44032, 51, 52, 53, 54] = 7720456504063707 * 2 ^ 1021"
proof -
  have "length plate_99 + length [57, 57, 44032, 51, 52, 53, 54::nat] = 14"
    by (simp add: plate_99_def)
  then have "ratio plate_99 [57, 57, 44032, 51, 52, 53, 54] = fdiv 12 14"
    unfolding ratio_def blocks_99 calculate_ratio_def by (simp add: matched_def round53_4_6_14)
  then show ?thesis by (simp only: fdiv_12_14)
qed

lemma ratio_12_less_99:
  "ratio plate_99 [49, 50, 44032, 51, 52, 53, 54] < ratio plate_99 [57, 57, 44032, 51, 52, 53, 54]"
  unfolding ratio_12 ratio_99 by (simp del: power_numeral)

lemma long_plate_length: "length long_plate = 201"
  by (simp add: long_plate_def length_concat ascii_def sum_list_replicate)

lemma long_plate_set: "set long_plate = {48, 51, 52, 53, 54}"
  by (auto simp: long_plate_def ascii_def)

lemma count_concat_replicate: "count_list (concat (replicate n xs)) c = n * count_list xs c"
  by (induction n) simp_all

lemma long_plate_popular:
  "popular long_plate 51" "popular long_plate 52" "popular long_plate 53" "popular long_plate 54"
  by (simp_all add: popular_def long_plate_length)
     (simp_all add: long_plate_def count_concat_replicate ascii_def)

lemma long_plate_b2j: "c \<in> set plate_12 \<Longrightarrow> b2j long_plate c = []"
  using long_plate_popular
  by (auto simp: plate_12_def long_plate_set intro: b2j_popular b2j_absent)



lemma long_plate_head: "long_plate ! 0 = 48"
  by (simp add: long_plate_def)

lemma upt_7: "[0..<7] = [0, 1, 2, 3, 4, 5, 6]"
  by (simp add: upt_rec)

lemma long_plate_blocks: "matching_blocks plate_12 long_plate = []"
proof -
  have b: "b2j long_plate 49 = []" "b2j long_plate 50 = []" "b2j long_plate 44032 = []"
    "b2j long_plate 51 = []" "b2j long_plate 52 = []" "b2j long_plate 53 = []"
    "b2j long_plate 54 = []"
    by (simp_all add: long_plate_b2j plate_12_def)
  have o: "outer_loop plate_12 long_plate 0 201 [0, 1, 2, 3, 4, 5, 6] ([], 0, 0, 0) = (0, 0, 0)"
    by (simp add: plate_12_def b)
  have eb: "extend_back plate_12 long_plate 0 0 (0, 0, 0) = (0, 0, 0)"
    by (subst extend_back.simps) simp
  have ef: "extend_forward plate_12 long_plate 7 201 (0, 0, 0) = (0, 0, 0)"
    by (subst extend_forward.simps) (simp add: plate_12_def long_plate_head)
  have f: "find_longest_match plate_12 long_plate 0 7 0 201 = (0, 0, 0)"
    unfolding find_longest_match_def upt_7 o eb ef by (rule refl)
  have "length plate_12 = 7" by (simp add: plate_12_def)
  then show ?thesis
    by (simp add: matching_blocks_def long_plate_length f)
qed

lemma long_plate_ratio: "ratio plate_12 long_plate = 0"
  by (simp add: ratio_def long_plate_blocks matched_def calculate_ratio_zero long_plate_length)


lemma digit_runs_all_digits:
  assumes "s \<noteq> []" and "\<forall>c \<in> set s. is_digit c"
  shows "digit_runs s = [s]"
proof -
  have d: "dropWhile (\<lambda>c. \<not> is_digit c) s = s" using assms by (cases s) auto
  have t: "takeWhile is_digit s = s" using assms(2) by (simp add: takeWhile_eq_all_conv)
  have r: "dropWhile is_digit s = []" using assms(2) by simp
  have "digit_runs [] = []" by (subst digit_runs.simps) simp
  then show ?thesis using assms(1) by (subst digit_runs.simps) (simp add: d t r Let_def)
qed

lemma long_plate_digits: "\<forall>c \<in> set long_plate. is_digit c"
  unfolding long_plate_set by (simp add: is_digit_low)

lemma long_plate_last4: "drop 197 long_plate = ascii ''3456''"
  by (simp add: long_plate_def replicate_numeral_unfold ascii_def)

lemma suffix_key_long_plate: "suffix_key long_plate = Some (ascii ''3456'')"
proof -
  have "long_plate \<noteq> []" by (simp add: long_plate_def)
  then have "digit_runs long_plate = [long_plate]"
    using long_plate_digits by (rule digit_runs_all_digits)
  then show ?thesis by (simp add: suffix_key_def long_plate_length long_plate_last4)
qed

lemma suffix_key_plate_12: "suffix_key plate_12 = Some (ascii ''3456'')"
  by (simp add: eval_runs plate_12_def)

lemma plate_of_long_row: "plate_of long_row = long_plate"
  by (simp add: plate_of_def long_row_def dict_get_def)

lemma candidates_long_row: "candidates (ascii ''3456'') [long_row] = [long_row]"
  by (simp add: candidates_def plate_of_long_row suffix_key_long_plate)

lemma match_long_row: "match_vehicle_number ratio plate_12 (Some [long_row]) = None"
  using match_by_key [OF suffix_key_plate_12, of ratio "[long_row]"]
  by (simp add: candidates_long_row plate_of_long_row long_plate_ratio)

lemma plates_3456:
  "plate_of (roster_3456 ! 0) = [49, 50, 44032, 51, 52, 53, 54]"
  "plate_of (roster_3456 ! 2) = [57, 57, 44032, 51, 52, 53, 54]"
  by (simp_all add: roster_3456_def plate_of_def dict_get_def)

lemma candidates_twins: "candidates (ascii ''3456'') roster_twins = roster_twins"
  by (auto simp: candidates_def plate_of_def dict_get_def roster_twins_def eval_runs)

lemma plates_twins: "\<forall>r \<in> set roster_twins. plate_of r = [57, 57, 44032, 51, 52, 53, 54]"
  by (simp add: roster_twins_def plate_of_def dict_get_def)

lemma best_of_3456:
  "first_best (\<lambda>r. ratio plate_99 (plate_of r)) [roster_3456 ! 0, roster_3456 ! 2]
     = Some (roster_3456 ! 2)"
  using ratio_12_less_99 by (simp add: first_best_def plates_3456 not_le)

lemma best_of_twins:
  "first_best (\<lambda>r. ratio plate_99 (plate_of r)) roster_twins = Some (roster_twins ! 0)"
  by (simp add: first_best_def roster_twins_def plate_of_def dict_get_def)


text \<open>
  Claim C3, as the code has it. Without a roster the matcher returns none. It returns none
  when the extracted string has no suffix key (no digit run, or a final digit run of fewer
  than four digits), and when no roster entry has the suffix key of the extracted string.
  Otherwise it returns the first candidate whose similarity to the extracted string no
  candidate exceeds, if that similarity is positive, and none if the similarity of every
  candidate is 0: this for every similarity, the parameter of the matcher. With the
  similarity of the program, \<open>ratio\<close>, an extracted string of fewer than \<open>2^63\<close> characters
  and candidates whose plate strings have fewer than 200 characters, the similarity of
  every candidate is positive, and the matcher returns the first candidate of the highest
  similarity.
\<close>

theorem match_vehicle_number_amended:
  fixes sim :: "ustr \<Rightarrow> ustr \<Rightarrow> 's::{linorder,zero}"
  shows "match_vehicle_number sim ocr None = None
   \<and> (suffix_key ocr1 = None \<longrightarrow> match_vehicle_number sim ocr1 (Some rows1) = None)
   \<and> (suffix_key ocr2 = Some key2 \<and> candidates key2 rows2 = []
        \<longrightarrow> match_vehicle_number sim ocr2 (Some rows2) = None)
   \<and> (suffix_key ocr3 = Some key3
        \<longrightarrow> match_vehicle_number sim ocr3 (Some rows3)
              = (if \<forall>r \<in> set (candidates key3 rows3). sim ocr3 (plate_of r) \<le> 0 then None
                 else first_best (\<lambda>r. sim ocr3 (plate_of r)) (candidates key3 rows3)))
   \<and> (suffix_key ocr4 = Some key4
        \<and> (\<forall>r \<in> set (candidates key4 rows4). length (plate_of r) < 200)
        \<and> length ocr4 < 2 ^ 63
        \<longrightarrow> match_vehicle_number ratio ocr4 (Some rows4)
              = first_best (\<lambda>r. ratio ocr4 (plate_of r)) (candidates key4 rows4))"
proof (intro conjI impI)
  show "match_vehicle_number sim ocr None = None" by (rule match_none_without_roster)
next
  assume "suffix_key ocr1 = None"
  then show "match_vehicle_number sim ocr1 (Some rows1) = None" by (rule match_none_without_key)
next
  assume a: "suffix_key ocr2 = Some key2 \<and> candidates key2 rows2 = []"
  then have "match_vehicle_number sim ocr2 (Some rows2)
      = (if \<forall>r \<in> set (candidates key2 rows2). sim ocr2 (plate_of r) \<le> 0 then None
         else first_best (\<lambda>r. sim ocr2 (plate_of r)) (candidates key2 rows2))"
    by (intro match_by_key) simp
  then show "match_vehicle_number sim ocr2 (Some rows2) = None" using a by simp
next
  assume "suffix_key ocr3 = Some key3"
  then show "match_vehicle_number sim ocr3 (Some rows3)
      = (if \<forall>r \<in> set (candidates key3 rows3). sim ocr3 (plate_of r) \<le> 0 then None
         else first_best (\<lambda>r. sim ocr3 (plate_of r)) (candidates key3 rows3))"
    by (rule match_by_key)
next
  assume a: "suffix_key ocr4 = Some key4
        \<and> (\<forall>r \<in> set (candidates key4 rows4). length (plate_of r) < 200)
        \<and> length ocr4 < 2 ^ 63"
  show "match_vehicle_number ratio ocr4 (Some rows4)
      = first_best (\<lambda>r. ratio ocr4 (plate_of r)) (candidates key4 rows4)"
    by (rule match_ratio_short) (use a in simp_all)
qed


theorem match_vehicle_number_amended_witness:
  "suffix_key (ascii ''12x34'') = None
   \<and> match_vehicle_number ratio (ascii ''12x34'') (Some roster_3456) = None
   \<and> suffix_key plate_99 = Some (ascii ''3456'')
   \<and> candidates (ascii ''3456'') [[(col_plate, [55, 55, 44032, 49, 49, 49, 49])]] = []
   \<and> match_vehicle_number ratio plate_99
        (Some [[(col_plate, [55, 55, 44032, 49, 49, 49, 49])]]) = None
   \<and> suffix_key plate_12 = Some (ascii ''3456'')
   \<and> candidates (ascii ''3456'') [long_row] = [long_row]
   \<and> ratio plate_12 (plate_of long_row) = 0
   \<and> match_vehicle_number ratio plate_12 (Some [long_row]) = None
   \<and> candidates (ascii ''3456'') roster_3456 = [roster_3456 ! 0, roster_3456 ! 2]
   \<and> length (plate_of (roster_3456 ! 0)) = 7
   \<and> length (plate_of (roster_3456 ! 2)) = 7
   \<and> length plate_99 = 7
   \<and> ratio plate_99 (plate_of (roster_3456 ! 0)) < ratio plate_99 (plate_of (roster_3456 ! 2))
   \<and> match_vehicle_number ratio plate_99 (Some roster_3456) = Some (roster_3456 ! 2)
   \<and> candidates (ascii ''3456'') roster_twins = roster_twins
   \<and> match_vehicle_number ratio plate_99 (Some roster_twins) = Some (roster_twins ! 0)"
proof -
  note t = match_vehicle_number_amended [where sim = ratio and ocr = "[]"
      and ?ocr1.0 = "ascii ''12x34''" and ?rows1.0 = roster_3456
      and ?ocr2.0 = plate_99 and ?key2.0 = "ascii ''3456''"
      and ?rows2.0 = "[[(col_plate, [55, 55, 44032, 49, 49, 49, 49])]]"
      and ?ocr3.0 = plate_12 and ?key3.0 = "ascii ''3456''" and ?rows3.0 = "[long_row]"
      and ?ocr4.0 = plate_99 and ?key4.0 = "ascii ''3456''" and ?rows4.0 = roster_3456]
  note u = match_vehicle_number_amended [where sim = ratio and ocr = "[]"
      and ?ocr1.0 = "[]" and ?rows1.0 = "[]" and ?ocr2.0 = "[]" and ?key2.0 = "[]"
      and ?rows2.0 = "[]" and ?ocr3.0 = "[]" and ?key3.0 = "[]" and ?rows3.0 = "[]"
      and ?ocr4.0 = plate_99 and ?key4.0 = "ascii ''3456''" and ?rows4.0 = roster_twins]
  have l: "length (plate_of (roster_3456 ! 0)) = 7" "length (plate_of (roster_3456 ! 2)) = 7"
    "length plate_99 = 7"
    by (simp_all add: plates_3456 plate_99_def)
  have a: "match_vehicle_number ratio (ascii ''12x34'') (Some roster_3456) = None"
    using t suffix_key_short by blast
  have b: "match_vehicle_number ratio plate_99
        (Some [[(col_plate, [55, 55, 44032, 49, 49, 49, 49])]]) = None"
    using t suffix_key_99 candidates_other by blast
  have z: "ratio plate_12 (plate_of long_row) = 0"
    by (simp add: plate_of_long_row long_plate_ratio)
  have "match_vehicle_number ratio plate_12 (Some [long_row])
      = (if \<forall>r \<in> set (candidates (ascii ''3456'') [long_row]). ratio plate_12 (plate_of r) \<le> 0
         then None
         else first_best (\<lambda>r. ratio plate_12 (plate_of r)) (candidates (ascii ''3456'') [long_row]))"
    using t suffix_key_plate_12 by blast
  then have c: "match_vehicle_number ratio plate_12 (Some [long_row]) = None"
    by (simp add: candidates_long_row z)
  have short: "\<forall>r \<in> set (candidates (ascii ''3456'') roster_3456). length (plate_of r) < 200"
    unfolding candidates_3456 using l by simp
  have p: "length plate_99 < 2 ^ 63" using l by simp
  have "match_vehicle_number ratio plate_99 (Some roster_3456)
      = first_best (\<lambda>r. ratio plate_99 (plate_of r)) (candidates (ascii ''3456'') roster_3456)"
    using t suffix_key_99 short p by blast
  then have d: "match_vehicle_number ratio plate_99 (Some roster_3456) = Some (roster_3456 ! 2)"
    unfolding candidates_3456 best_of_3456 .
  have "\<forall>r \<in> set (candidates (ascii ''3456'') roster_twins). length (plate_of r) < 200"
    unfolding candidates_twins using plates_twins by simp
  then have "match_vehicle_number ratio plate_99 (Some roster_twins)
      = first_best (\<lambda>r. ratio plate_99 (plate_of r)) (candidates (ascii ''3456'') roster_twins)"
    using u suffix_key_99 p by blast
  then have e: "match_vehicle_number ratio plate_99 (Some roster_twins) = Some (roster_twins ! 0)"
    unfolding candidates_twins best_of_twins .
  have f: "ratio plate_99 (plate_of (roster_3456 ! 0)) < ratio plate_99 (plate_of (roster_3456 ! 2))"
    unfolding plates_3456 by (rule ratio_12_less_99)
  show ?thesis
    using a b c d e f l z suffix_key_short suffix_key_99 candidates_other suffix_key_plate_12
      candidates_long_row candidates_3456 candidates_twins
    by (intro conjI)
qed


text \<open>
  Claim C3 as it is stated fails on a roster entry with a plate string of 200 characters
  or more: the characters that the entry shares with the extracted string are popular in
  it and take no part in the comparison, the similarity is 0, which does not exceed the
  0 that the search starts from, and the matcher returns none although the entry has the
  suffix key of the extracted string.
\<close>

theorem match_vehicle_number_zero_ratio_counterexample:
  "suffix_key plate_12 = Some (ascii ''3456'')
   \<and> suffix_key (plate_of long_row) = Some (ascii ''3456'')
   \<and> candidates (ascii ''3456'') [long_row] = [long_row]
   \<and> length (plate_of long_row) = 201
   \<and> ratio plate_12 (plate_of long_row) = 0
   \<and> match_vehicle_number ratio plate_12 (Some [long_row]) = None"
  using suffix_key_plate_12 suffix_key_long_plate candidates_long_row long_plate_length
    long_plate_ratio match_long_row
  by (simp add: plate_of_long_row)

section \<open>The scans of \<open>re.findall\<close> and \<open>re.sub\<close> always advance\<close>

lemma shape_nonnull: "nonnull r \<Longrightarrow> shape r w \<Longrightarrow> w \<noteq> []"
proof (induction r arbitrary: w)
  case (Rep r lo hi)
  from Rep.prems(2) obtain ws where ws: "w = concat ws" "\<forall>x \<in> set ws. shape r x" "lo \<le> length ws"
    by auto
  have "0 < lo" and nn: "nonnull r" using Rep.prems(1) by simp_all
  then obtain x xs where x: "ws = x # xs" using ws(3) by (cases ws) auto
  then have "shape r x" using ws(2) by simp
  then have "x \<noteq> []" using nn Rep.IH by blast
  then show ?case using ws(1) x by simp
qed auto

lemma match_at_progress:
  assumes "nonnull r" and "match_at r p s = Some m"
  shows "length (post m) < length s"
proof -
  define st where "st = \<lparr>pre = p, post = s, grps = []\<rparr>"
  have "m \<in> set (rx_match (Grp 0 r) st)"
    using assms(2) by (auto simp: match_at_def st_def split: list.splits)
  then obtain w where w: "reaches st w m" "shape (Grp 0 r) w" using rx_match_sound by blast
  then have "w \<noteq> []" using assms(1) shape_nonnull [of r w] by simp
  moreover have "s = w @ post m" using w(1) by (simp add: reaches_def st_def)
  ultimately have "0 < length w" and "length s = length w + length (post m)" by simp_all
  then show ?thesis by arith
qed

lemma search_from_progress:
  assumes "nonnull r"
  shows "search_from r p s = Some m \<Longrightarrow> length (post m) < length s"
proof (induction s arbitrary: p)
  case Nil
  then have "match_at r p [] = Some m" by simp
  with assms show ?case by (rule match_at_progress)
next
  case (Cons c cs)
  show ?case
  proof (cases "match_at r p (c # cs)")
    case None
    then have "search_from r (c # p) cs = Some m" using Cons.prems by simp
    then have "length (post m) < length cs" by (rule Cons.IH)
    then show ?thesis by simp
  next
    case (Some m')
    then have "match_at r p (c # cs) = Some m" using Cons.prems by simp
    with assms show ?thesis by (rule match_at_progress)
  qed
qed

lemma findall_from_advances:
  assumes "nonnull r"
  shows "findall_from k r p s =
     (case search_from r p s of None \<Rightarrow> []
      | Some m \<Rightarrow> group_text m k # findall_from k r (pre m) (post m))"
proof (cases "search_from r p s")
  case None
  then show ?thesis by (subst findall_from.simps) simp
next
  case (Some m)
  then have "length (post m) < length s" using assms search_from_progress by blast
  then show ?thesis using Some by (subst findall_from.simps) simp
qed

lemma sub_from_advances:
  assumes "nonnull r"
  shows "sub_from r repl p s =
     (case search_from r p s of None \<Rightarrow> s
      | Some m \<Rightarrow> take (length s - length (post m) - length (group_text m 0)) s @ repl
                  @ sub_from r repl (pre m) (post m))"
proof (cases "search_from r p s")
  case None
  then show ?thesis by (subst sub_from.simps) simp
next
  case (Some m)
  then have "length (post m) < length s" using assms search_from_progress by blast
  then show ?thesis using Some by (subst sub_from.simps) simp
qed

lemma scan_patterns_nonnull: "list_all nonnull scan_patterns"
  by (simp add: scan_patterns_def rx_digits_def rx_amount_def rx_num_commas_def
      rx_hyphen_code_def rx_ws1_def rx_not_date_char_def rx_number_def rx_digit_def seqs_def)

lemma patterns_rep_ok: "list_all rep_ok (scan_patterns @ search_patterns)"
  by (simp add: scan_patterns_def search_patterns_def rx_digits_def rx_amount_def
      rx_num_commas_def rx_hyphen_code_def rx_ws1_def rx_not_date_char_def rx_number_def
      rx_digit_def rx_ws0_def rx_sep_def rx_hangul_def rx_ymd8_def rx_ymd6_def rx_sep_ymd_def
      rx_year_k_def rx_month_k_def rx_day_k_def rx_md_def rx_plate_tight_def
      rx_plate_loose_def rx_last4_def rx_amount_won_def seqs_def)

section \<open>The groups that the program reads take part in every match\<close>

lemma reps_keeps_groups:
  assumes body: "\<And>st st'. st' \<in> set (f st) \<Longrightarrow> fst ` set (grps st) \<subseteq> fst ` set (grps st')"
  shows "st' \<in> set (reps f h lo st) \<Longrightarrow> fst ` set (grps st) \<subseteq> fst ` set (grps st')"
proof (induction h arbitrary: lo st)
  case 0
  then show ?case by (simp split: if_splits)
next
  case (Suc h)
  from Suc.prems have
    "(\<exists>st1. st1 \<in> set (f st) \<and> st' \<in> set (reps f h (lo - 1) st1)) \<or> st' = st"
    by (auto split: if_splits)
  then show ?case
  proof
    assume "\<exists>st1. st1 \<in> set (f st) \<and> st' \<in> set (reps f h (lo - 1) st1)"
    then obtain st1 where m: "st1 \<in> set (f st)" "st' \<in> set (reps f h (lo - 1) st1)" by blast
    have "fst ` set (grps st) \<subseteq> fst ` set (grps st1)" using m(1) by (rule body)
    moreover have "fst ` set (grps st1) \<subseteq> fst ` set (grps st')" using m(2) by (rule Suc.IH)
    ultimately show ?thesis by (rule subset_trans)
  next
    assume "st' = st"
    then show ?thesis by simp
  qed
qed

lemma rx_match_keeps_groups:
  "st' \<in> set (rx_match r st) \<Longrightarrow> fst ` set (grps st) \<subseteq> fst ` set (grps st')"
proof (induction r arbitrary: st st')
  case (Cls cs)
  then show ?case by (cases "post st") (auto simp: step_char_def split: if_splits)
next
  case (NCls cs)
  then show ?case by (cases "post st") (auto simp: step_char_def split: if_splits)
next
  case Eps
  then show ?case by simp
next
  case (Seq a b)
  from Seq.prems obtain st1 where s1: "st1 \<in> set (rx_match a st)" "st' \<in> set (rx_match b st1)"
    by auto
  have "fst ` set (grps st) \<subseteq> fst ` set (grps st1)" using s1(1) by (rule Seq.IH(1))
  moreover have "fst ` set (grps st1) \<subseteq> fst ` set (grps st')" using s1(2) by (rule Seq.IH(2))
  ultimately show ?case by (rule subset_trans)
next
  case (Alt a b)
  from Alt.prems have "st' \<in> set (rx_match a st) \<or> st' \<in> set (rx_match b st)" by simp
  then show ?case using Alt.IH by blast
next
  case (Rep r lo hi)
  have "st' \<in> set (reps (rx_match r) (case hi of Some h \<Rightarrow> h | None \<Rightarrow> length (post st)) lo st)"
    using Rep.prems by simp
  then show ?case using reps_keeps_groups [of "rx_match r" st'] Rep.IH by blast
next
  case (Grp k r)
  from Grp.prems obtain s1 where s1: "s1 \<in> set (rx_match r st)"
      "st' = s1\<lparr>grps := (k, consumed st s1) # grps s1\<rparr>"
    by auto
  have "fst ` set (grps st) \<subseteq> fst ` set (grps s1)" using s1(1) by (rule Grp.IH)
  then show ?case unfolding s1(2) by auto
next
  case (NotBehind cs)
  then show ?case by (cases "pre st") (auto split: if_splits)
next
  case (NotAhead cs)
  then show ?case by (cases "post st") (auto split: if_splits)
qed

lemma reps_binds:
  assumes body: "\<And>st st'. st' \<in> set (f st) \<Longrightarrow> k \<in> fst ` set (grps st')"
    and keep: "\<And>st st'. st' \<in> set (f st) \<Longrightarrow> fst ` set (grps st) \<subseteq> fst ` set (grps st')"
  shows "0 < lo \<Longrightarrow> st' \<in> set (reps f h lo st) \<Longrightarrow> k \<in> fst ` set (grps st')"
proof (cases h)
  case 0
  assume "0 < lo" and "st' \<in> set (reps f h lo st)"
  then show ?thesis using 0 by simp
next
  case (Suc h')
  assume lo: "0 < lo" and mem: "st' \<in> set (reps f h lo st)"
  then obtain st1 where m: "st1 \<in> set (f st)" "st' \<in> set (reps f h' (lo - 1) st1)"
    using Suc by auto
  have "k \<in> fst ` set (grps st1)" using m(1) by (rule body)
  moreover have "fst ` set (grps st1) \<subseteq> fst ` set (grps st')"
    using keep m(2) by (rule reps_keeps_groups)
  ultimately show ?thesis by blast
qed

lemma rx_match_binds:
  "binds k r \<Longrightarrow> st' \<in> set (rx_match r st) \<Longrightarrow> k \<in> fst ` set (grps st')"
proof (induction r arbitrary: st st')
  case (Seq a b)
  from Seq.prems(2) obtain st1 where s1: "st1 \<in> set (rx_match a st)" "st' \<in> set (rx_match b st1)"
    by auto
  from Seq.prems(1) have "binds k a \<or> binds k b" by simp
  then show ?case
  proof
    assume "binds k a"
    then have "k \<in> fst ` set (grps st1)" using s1(1) by (rule Seq.IH(1))
    then show ?thesis using rx_match_keeps_groups [OF s1(2)] by blast
  next
    assume "binds k b"
    then show ?thesis using s1(2) by (rule Seq.IH(2))
  qed
next
  case (Alt a b)
  from Alt.prems(2) have "st' \<in> set (rx_match a st) \<or> st' \<in> set (rx_match b st)" by simp
  then show ?case using Alt.IH Alt.prems(1) by auto
next
  case (Rep r lo hi)
  have b: "binds k r" and lo: "0 < lo" using Rep.prems(1) by simp_all
  have mem: "st' \<in> set (reps (rx_match r) (case hi of Some h \<Rightarrow> h | None \<Rightarrow> length (post st)) lo st)"
    using Rep.prems(2) by simp
  have body: "\<And>s s'. s' \<in> set (rx_match r s) \<Longrightarrow> k \<in> fst ` set (grps s')"
    using b by (rule Rep.IH)
  show ?case
    using reps_binds [of "rx_match r" k lo st'] body rx_match_keeps_groups lo mem by blast
next
  case (Grp j r)
  from Grp.prems(2) obtain s1 where s1: "s1 \<in> set (rx_match r st)"
      "st' = s1\<lparr>grps := (j, consumed st s1) # grps s1\<rparr>"
    by auto
  show ?case
  proof (cases "j = k")
    case True
    then show ?thesis unfolding s1(2) by simp
  next
    case False
    then have "binds k r" using Grp.prems(1) by simp
    then have "k \<in> fst ` set (grps s1)" using s1(1) by (rule Grp.IH)
    then show ?thesis unfolding s1(2) by auto
  qed
qed simp_all

lemma search_from_binds:
  assumes "binds k (Grp 0 r)"
  shows "search_from r p s = Some m \<Longrightarrow> group m k \<noteq> None"
proof (induction s arbitrary: p)
  case Nil
  then have "m \<in> set (rx_match (Grp 0 r) \<lparr>pre = p, post = [], grps = []\<rparr>)"
    by (auto simp: match_at_def split: list.splits)
  with assms have "k \<in> fst ` set (grps m)" by (rule rx_match_binds)
  then show ?case by (simp add: group_def map_of_eq_None_iff)
next
  case (Cons c cs)
  show ?case
  proof (cases "match_at r p (c # cs)")
    case None
    then have "search_from r (c # p) cs = Some m" using Cons.prems by simp
    then show ?thesis by (rule Cons.IH)
  next
    case (Some m')
    then have "m \<in> set (rx_match (Grp 0 r) \<lparr>pre = p, post = c # cs, grps = []\<rparr>)"
      using Cons.prems by (auto simp: match_at_def split: list.splits)
    with assms have "k \<in> fst ` set (grps m)" by (rule rx_match_binds)
    then show ?thesis by (simp add: group_def map_of_eq_None_iff)
  qed
qed

lemma re_search_group_present:
  "binds k (Grp 0 r) \<Longrightarrow> re_search r s = Some m \<Longrightarrow> group m k \<noteq> None"
  unfolding re_search_def by (rule search_from_binds)

lemma groups_read_are_bound:
  "list_all (\<lambda>r. binds 1 r \<and> binds 2 r \<and> binds 3 r) [rx_ymd8, rx_ymd6, rx_sep_ymd]"
  "list_all (binds 1) [rx_year_k, rx_month_k, rx_day_k, rx_md, rx_last4, rx_amount_won,
                       rx_amount, rx_plate_tight, rx_plate_loose]"
  "binds 2 rx_md"
  by (simp_all add: rx_ymd8_def rx_ymd6_def rx_sep_ymd_def rx_year_k_def rx_month_k_def
      rx_day_k_def rx_md_def rx_last4_def rx_amount_won_def rx_amount_def rx_number_def
      rx_plate_tight_def rx_plate_loose_def seqs_def)

end
